theory Spec2Isabelle
  imports Main "HOL-Library.Word"
begin

section \<open>go-volley: last-byte withholding transport\<close>

text \<open>
  The repository holds two generations of the same package. The counter-tracking
  transport (Transport with dialStartCount, dialInflight, aliveCount, heldCount, fired;
  StraddleConn with isCounted and the two channels) is embedded under the source's own
  names. The earlier, simple wrapper of volley.go (no counters, a registry of
  connections) reuses the same Go names, so its definitions carry the suffix
  \<open>_simple\<close>.

  Go's \<open>int32\<close> counters are 32-bit words: \<open>atomic.AddInt32\<close> wraps, and the
  comparisons of \<open>Wait\<close> are signed (\<open><s\<close>). Bytes are 8-bit words. Every
  method takes the state it touches and returns it updated; a Go panic is \<open>None\<close>.
\<close>

type_synonym byte = "8 word"
type_synonym int32 = "32 word"

datatype error = ErrWrite | ErrClosed | ErrDial | DeadlineExceeded

subsection \<open>The underlying net.Conn\<close>

text \<open>
  \<open>net.Conn\<close> belongs to Go's standard library. A connection is observed through
  the bytes its peer received (\<open>wire\<close>) and the argument of every \<open>Write\<close> call made
  on it (\<open>calls\<close>). It may fail: \<open>quota = Some q\<close> lets it accept \<open>q\<close> more bytes
  before a write stops short with an error (a partial count, as Go's \<open>io.Writer\<close>
  allows); \<open>quota = None\<close> never fails. A closed connection accepts nothing.
\<close>

record NetConn =
  wire :: "byte list"
  calls :: "byte list list"
  quota :: "nat option"
  isClosed :: bool

definition conn_Write :: "NetConn \<Rightarrow> byte list \<Rightarrow> NetConn \<times> nat \<times> error option" where
  "conn_Write c b =
     (let c1 = c\<lparr>calls := calls c @ [b]\<rparr> in
      if isClosed c then (c1, 0, Some ErrClosed)
      else (case quota c of
              None \<Rightarrow> (c1\<lparr>wire := wire c @ b\<rparr>, length b, None)
            | Some q \<Rightarrow>
                if length b \<le> q
                then (c1\<lparr>wire := wire c @ b, quota := Some (q - length b)\<rparr>, length b, None)
                else (c1\<lparr>wire := wire c @ take q b, quota := Some 0\<rparr>, q, Some ErrWrite)))"

definition conn_Close :: "NetConn \<Rightarrow> NetConn \<times> error option" where
  "conn_Close c = (c\<lparr>isClosed := True\<rparr>, if isClosed c then Some ErrClosed else None)"

definition fresh_conn :: NetConn where
  "fresh_conn = \<lparr>wire = [], calls = [], quota = None, isClosed = False\<rparr>"

subsection \<open>Transport and StraddleConn (counter-tracking version)\<close>

text \<open>
  \<open>fireChAtom\<close> holds a reference to the current broadcast channel; the channels
  themselves live in the heap \<open>chans\<close> of the world (index = identity, value = closed).
  \<open>notifyCh\<close> is the number of tokens in the capacity-1 notification channel.
\<close>

record Transport =
  dialStartCount :: int32
  dialInflight :: int32
  aliveCount :: int32
  heldCount :: int32
  fired :: int32
  fireChAtom :: nat
  notifyCh :: nat

record StraddleConn =
  Conn :: NetConn
  fireCh :: nat
  closeCh :: bool
  held :: byte
  hasHeld :: bool
  isCounted :: bool

record world =
  tr :: Transport
  chans :: "bool list"
  conns :: "StraddleConn list"

definition tryNotify :: "Transport \<Rightarrow> Transport" where
  "tryNotify t = (if notifyCh t < 1 then t\<lparr>notifyCh := notifyCh t + 1\<rparr> else t)"

definition NewTransport :: world where
  "NewTransport =
     \<lparr>tr = \<lparr>dialStartCount = 0, dialInflight = 0, aliveCount = 0, heldCount = 0,
             fired = 0, fireChAtom = 0, notifyCh = 0\<rparr>,
      chans = [False],
      conns = []\<rparr>"

definition wrapConn :: "world \<Rightarrow> NetConn \<Rightarrow> world \<times> nat" where
  "wrapConn w c =
     (let t1 = (tr w)\<lparr>aliveCount := aliveCount (tr w) + 1\<rparr>;
          t2 = tryNotify t1;
          ch = fireChAtom t2;
          sc = \<lparr>Conn = c, fireCh = ch, closeCh = False, held = 0,
                hasHeld = False, isCounted = False\<rparr>
      in (w\<lparr>tr := t2, conns := conns w @ [sc]\<rparr>, length (conns w)))"

text \<open>
  \<open>trackDial\<close> brackets the blocking \<open>dialFunc()\<close>: what runs before it is
  \<open>trackDial_begin\<close>, what runs after it, given the outcome of the dial, is
  \<open>trackDial_end\<close>.
\<close>

definition trackDial_begin :: "Transport \<Rightarrow> Transport" where
  "trackDial_begin t =
     (let t1 = t\<lparr>dialStartCount := dialStartCount t + 1\<rparr>
      in t1\<lparr>dialInflight := dialInflight t1 + 1\<rparr>)"

definition trackDial_end :: "world \<Rightarrow> error + NetConn \<Rightarrow> world \<times> (error + nat)" where
  "trackDial_end w outcome =
     (let w1 = w\<lparr>tr := (tr w)\<lparr>dialInflight := dialInflight (tr w) - 1\<rparr>\<rparr>
      in case outcome of
           Inl err \<Rightarrow> (w1\<lparr>tr := tryNotify (tr w1)\<rparr>, Inl err)
         | Inr c \<Rightarrow> (let (w2, i) = wrapConn w1 c in (w2, Inr i)))"

definition trackDial :: "world \<Rightarrow> error + NetConn \<Rightarrow> world \<times> (error + nat)" where
  "trackDial w outcome = trackDial_end (w\<lparr>tr := trackDial_begin (tr w)\<rparr>) outcome"

datatype dialed = Raw NetConn | Wrapped nat

definition DialContext :: "world \<Rightarrow> error + NetConn \<Rightarrow> world \<times> (error + dialed)" where
  "DialContext w outcome =
     (if fired (tr w) = 1
      then (w, case outcome of Inl err \<Rightarrow> Inl err | Inr c \<Rightarrow> Inr (Raw c))
      else (let (w1, r) = trackDial w outcome
            in (w1, case r of Inl err \<Rightarrow> Inl err | Inr i \<Rightarrow> Inr (Wrapped i))))"

definition close_chan :: "bool list \<Rightarrow> nat \<Rightarrow> bool list option" where
  "close_chan cs i = (if i < length cs \<and> \<not> cs ! i then Some (cs[i := True]) else None)"

definition Fire :: "world \<Rightarrow> world option" where
  "Fire w =
     (if fired (tr w) \<noteq> 0 then Some w
      else (case close_chan (chans w) (fireChAtom (tr w)) of
              None \<Rightarrow> None
            | Some cs \<Rightarrow> Some (w\<lparr>tr := (tr w)\<lparr>fired := 1\<rparr>, chans := cs\<rparr>)))"

definition Reset :: "world \<Rightarrow> world" where
  "Reset w =
     w\<lparr>tr := (tr w)\<lparr>fireChAtom := length (chans w), heldCount := 0, aliveCount := 0,
                    dialStartCount := 0, dialInflight := 0, fired := 0\<rparr>,
       chans := chans w @ [False]\<rparr>"

subsection \<open>Wait\<close>

definition check :: "Transport \<Rightarrow> int \<Rightarrow> bool" where
  "check t want =
     (let start = dialStartCount t;
          inflight = dialInflight t;
          held = heldCount t;
          alive = aliveCount t
      in if start <s word_of_int want then False
         else if 0 <s inflight then False
         else if alive = 0 then True
         else held = alive)"

text \<open>
  The slow path blocks in a \<open>select\<close>. What it receives is the list of wake-ups:
  \<open>CtxDone\<close>, or a token from \<open>notifyCh\<close> together with the transport as the
  re-check reads it. \<open>None\<close> is a caller still blocked when the wake-ups end;
  \<open>Some None\<close> is the return value \<open>nil\<close>.
\<close>

datatype wake = CtxDone | Notified Transport

fun Wait_slow :: "int \<Rightarrow> wake list \<Rightarrow> error option option" where
  "Wait_slow want [] = None"
| "Wait_slow want (CtxDone # es) = Some (Some DeadlineExceeded)"
| "Wait_slow want (Notified t # es) = (if check t want then Some None else Wait_slow want es)"

definition Wait :: "Transport \<Rightarrow> wake list \<Rightarrow> int \<Rightarrow> error option option" where
  "Wait t es want =
     (if want \<le> 0 then Some None
      else if check t want then Some None
      else Wait_slow want es)"

subsection \<open>StraddleConn methods\<close>

text \<open>
  \<open>Write\<close> loads \<open>owner.fired\<close> twice, before and after taking the connection's
  lock; \<open>f1\<close> and \<open>f2\<close> are the two values read. In a run without a concurrent
  \<open>Fire\<close> both are the transport's \<open>fired\<close>.
\<close>

definition Write ::
  "int32 \<Rightarrow> int32 \<Rightarrow> Transport \<Rightarrow> StraddleConn \<Rightarrow> byte list
     \<Rightarrow> Transport \<times> StraddleConn \<times> nat \<times> error option" where
  "Write f1 f2 t sc b =
     (if length b = 0 then (t, sc, 0, None)
      else if f1 = 1 then
        (let (c, r) = conn_Write (Conn sc) b in (t, sc\<lparr>Conn := c\<rparr>, r))
      else if f2 = 1 then
        (let sc1 = (if hasHeld sc
                    then sc\<lparr>Conn := fst (conn_Write (Conn sc) [held sc]), hasHeld := False\<rparr>
                    else sc);
             (c, r) = conn_Write (Conn sc1) b
         in (t, sc1\<lparr>Conn := c\<rparr>, r))
      else
        (let payload = (if hasHeld sc then [held sc] else []) @ b;
             sc1 = (if hasHeld sc then sc\<lparr>hasHeld := False\<rparr> else sc)
         in if length payload = 0 then (t, sc1, length b, None)
            else
              (let toHold = last payload;
                   sc2 = sc1\<lparr>held := toHold, hasHeld := True\<rparr>;
                   (t1, sc3) =
                     (if \<not> isCounted sc2
                      then (tryNotify (t\<lparr>heldCount := heldCount t + 1\<rparr>),
                            sc2\<lparr>isCounted := True\<rparr>)
                      else (t, sc2));
                   toSend = butlast payload
               in if length toSend > 0
                  then (case conn_Write (Conn sc3) toSend of
                          (c, n, Some err) \<Rightarrow> (t1, sc3\<lparr>Conn := c\<rparr>, 0, Some err)
                        | (c, n, None) \<Rightarrow> (t1, sc3\<lparr>Conn := c\<rparr>, length b, None))
                  else (t1, sc3, length b, None))))"

definition release :: "StraddleConn \<Rightarrow> StraddleConn" where
  "release sc =
     (if hasHeld sc
      then sc\<lparr>Conn := fst (conn_Write (Conn sc) [held sc]), hasHeld := False\<rparr>
      else sc)"

text \<open>
  \<open>Write\<close> starts the listener \<open>waitForFire\<close> in a goroutine of its own when it
  first counts the wrapper. The listener is one \<open>select\<close> over two receives: from the
  wrapper's broadcast channel \<open>fireCh\<close>, followed by \<open>release\<close>, and from its
  \<open>closeCh\<close>, followed by a plain return. A receive is ready once its channel is
  closed. When one case is ready it runs; when both are, Go takes either, and
  \<open>pickFire\<close> says which; when none is, the listener stays blocked and the wrapper is
  as it was. In a run the listener's turn is the call \<open>CallRelease i pickFire\<close>.
\<close>

definition waitForFire :: "bool list \<Rightarrow> bool \<Rightarrow> StraddleConn \<Rightarrow> StraddleConn" where
  "waitForFire cs pickFire sc =
     (let fireReady = (fireCh sc < length cs \<and> cs ! fireCh sc);
          closeReady = closeCh sc
      in if fireReady \<and> closeReady then (if pickFire then release sc else sc)
         else if fireReady then release sc
         else sc)"

definition Close :: "Transport \<Rightarrow> StraddleConn \<Rightarrow> Transport \<times> StraddleConn \<times> error option" where
  "Close t sc =
     (let (t1, sc1) =
            (if isCounted sc
             then (tryNotify (if fired t = 0 then t\<lparr>heldCount := heldCount t - 1\<rparr> else t),
                   sc\<lparr>isCounted := False, closeCh := True\<rparr>)
             else (t, sc));
          sc2 = (if hasHeld sc1
                 then sc1\<lparr>Conn := fst (conn_Write (Conn sc1) [held sc1]), hasHeld := False\<rparr>
                 else sc1);
          t2 = tryNotify (t1\<lparr>aliveCount := aliveCount t1 - 1\<rparr>);
          (c, err) = conn_Close (Conn sc2)
      in (t2, sc2\<lparr>Conn := c\<rparr>, err))"

subsection \<open>Runs of the transport\<close>

text \<open>
  A run is a sequence of calls, each executed to completion before the next starts.
  Wrappers are named by their position in \<open>conns\<close>; a call naming a wrapper that was
  never dialled changes nothing.
\<close>

datatype call =
    CallDial "error + NetConn"
  | CallWrite nat "byte list"
  | CallFire
  | CallRelease nat bool
  | CallClose nat
  | CallReset

definition Write_at :: "world \<Rightarrow> nat \<Rightarrow> byte list \<Rightarrow> world \<times> nat \<times> error option" where
  "Write_at w i b =
     (let (t, sc, r) = Write (fired (tr w)) (fired (tr w)) (tr w) (conns w ! i) b
      in (w\<lparr>tr := t, conns := (conns w)[i := sc]\<rparr>, r))"

definition Close_at :: "world \<Rightarrow> nat \<Rightarrow> world \<times> error option" where
  "Close_at w i =
     (let (t, sc, err) = Close (tr w) (conns w ! i)
      in (w\<lparr>tr := t, conns := (conns w)[i := sc]\<rparr>, err))"

fun step :: "world \<Rightarrow> call \<Rightarrow> world option" where
  "step w (CallDial outcome) = Some (fst (DialContext w outcome))"
| "step w (CallWrite i b) = (if i < length (conns w) then Some (fst (Write_at w i b)) else Some w)"
| "step w CallFire = Fire w"
| "step w (CallRelease i pickFire) =
     (if i < length (conns w)
      then Some (w\<lparr>conns := (conns w)[i := waitForFire (chans w) pickFire (conns w ! i)]\<rparr>)
      else Some w)"
| "step w (CallClose i) = (if i < length (conns w) then Some (fst (Close_at w i)) else Some w)"
| "step w CallReset = Some (Reset w)"

fun run :: "world \<Rightarrow> call list \<Rightarrow> world option" where
  "run w [] = Some w"
| "run w (a # as) = (case step w a of None \<Rightarrow> None | Some w' \<Rightarrow> run w' as)"

subsection \<open>The simple wrapper of volley.go\<close>

record StraddleConn_simple =
  Conn_simple :: NetConn
  held_simple :: byte
  hasHeld_simple :: bool

definition Write_simple ::
  "StraddleConn_simple \<Rightarrow> byte list \<Rightarrow> StraddleConn_simple \<times> nat \<times> error option" where
  "Write_simple sc b =
     (if length b = 0 then (sc, 0, None)
      else
        (let payload = (if hasHeld_simple sc then [held_simple sc] else []) @ b;
             sc1 = (if hasHeld_simple sc then sc\<lparr>hasHeld_simple := False\<rparr> else sc)
         in if length payload = 0 then (sc1, length b, None)
            else
              (let toHold = last payload;
                   sc2 = sc1\<lparr>held_simple := toHold, hasHeld_simple := True\<rparr>;
                   toSend = butlast payload
               in if length toSend > 0
                  then (case conn_Write (Conn_simple sc2) toSend of
                          (c, n, Some err) \<Rightarrow> (sc2\<lparr>Conn_simple := c\<rparr>, 0, Some err)
                        | (c, n, None) \<Rightarrow> (sc2\<lparr>Conn_simple := c\<rparr>, length b, None))
                  else (sc2, length b, None))))"

subsection \<open>Vocabulary of the properties\<close>

text \<open>
  \<open>accepts c k\<close>: the connection takes a write of \<open>k\<close> bytes without error.
  \<open>payload sc b\<close> is the local variable \<open>payload\<close> of a buffering \<open>Write\<close>: the
  withheld byte, if any, followed by \<open>b\<close>.
\<close>

definition accepts :: "NetConn \<Rightarrow> nat \<Rightarrow> bool" where
  "accepts c k = (\<not> isClosed c \<and> (case quota c of None \<Rightarrow> True | Some q \<Rightarrow> k \<le> q))"

definition payload :: "StraddleConn \<Rightarrow> byte list \<Rightarrow> byte list" where
  "payload sc b = (if hasHeld sc then [held sc] else []) @ b"

definition payload_simple :: "StraddleConn_simple \<Rightarrow> byte list \<Rightarrow> byte list" where
  "payload_simple sc b = (if hasHeld_simple sc then [held_simple sc] else []) @ b"

text \<open>What the simple wrapper can see of a counter-tracking one.\<close>

definition simple_of :: "StraddleConn \<Rightarrow> StraddleConn_simple" where
  "simple_of sc = \<lparr>Conn_simple = Conn sc, held_simple = held sc, hasHeld_simple = hasHeld sc\<rparr>"

text \<open>A sequence of \<open>Write\<close> calls on one wrapper, with the results of the calls.\<close>

fun Writes ::
  "Transport \<Rightarrow> StraddleConn \<Rightarrow> byte list list
     \<Rightarrow> Transport \<times> StraddleConn \<times> (nat \<times> error option) list" where
  "Writes t sc [] = (t, sc, [])"
| "Writes t sc (b # bs) =
     (let (t1, sc1, r) = Write (fired t) (fired t) t sc b;
          (t2, sc2, rs) = Writes t1 sc1 bs
      in (t2, sc2, r # rs))"

fun Writes_simple ::
  "StraddleConn_simple \<Rightarrow> byte list list
     \<Rightarrow> StraddleConn_simple \<times> (nat \<times> error option) list" where
  "Writes_simple sc [] = (sc, [])"
| "Writes_simple sc (b # bs) =
     (let (sc1, r) = Write_simple sc b;
          (sc2, rs) = Writes_simple sc1 bs
      in (sc2, r # rs))"

text \<open>
  A wrapper as \<open>wrapConn\<close> builds it, and the 18 bytes of the request
  \<open>GET / HTTP/1.1\<close> with its two line ends (13, 10, 13, 10).
\<close>

definition fresh_wrapper :: StraddleConn where
  "fresh_wrapper = \<lparr>Conn = fresh_conn, fireCh = 0, closeCh = False, held = 0,
                     hasHeld = False, isCounted = False\<rparr>"

definition http_get :: "byte list" where
  "http_get = [71, 69, 84, 32, 47, 32, 72, 84, 84, 80, 47, 49, 46, 49, 13, 10, 13, 10]"

text \<open>A dial that succeeds with a healthy connection.\<close>

definition dial_ok :: "error + NetConn" where
  "dial_ok = Inr fresh_conn"

text \<open>
  \<open>armed\<close>: the transport's current broadcast channel exists, is open while
  \<open>fired\<close> is 0, and closed once \<open>fired\<close> is 1.
\<close>

definition armed :: "world \<Rightarrow> bool" where
  "armed w =
     (fireChAtom (tr w) < length (chans w) \<and>
      (if fired (tr w) = 0 then \<not> chans w ! fireChAtom (tr w)
       else fired (tr w) = 1 \<and> chans w ! fireChAtom (tr w)))"

text \<open>\<open>writes_to i a\<close>: the call \<open>a\<close> is a \<open>Write\<close> on wrapper \<open>i\<close>.\<close>

fun writes_to :: "nat \<Rightarrow> call \<Rightarrow> bool" where
  "writes_to i (CallWrite j b) = (j = i)"
| "writes_to i a = False"

text \<open>
  \<open>written_once sc sc'\<close> relates a wrapper \<open>sc\<close> that withholds a byte to a later
  state \<open>sc'\<close> of it: either the byte is still withheld and nothing has happened to the
  wrapper, or exactly one more \<open>Write\<close> call was made on the underlying connection,
  carrying that byte alone, and the byte is on the wire if the connection took it.
\<close>

definition written_once :: "StraddleConn \<Rightarrow> StraddleConn \<Rightarrow> bool" where
  "written_once sc sc' =
     (if hasHeld sc' then sc' = sc
      else calls (Conn sc') = calls (Conn sc) @ [[held sc]] \<and>
           (if accepts (Conn sc) 1 then wire (Conn sc') = wire (Conn sc) @ [held sc]
            else True))"

text \<open>The world after one successful dial and a \<open>Write\<close> of the bytes 1, 2.\<close>

definition held_world :: world where
  "held_world = fst (Write_at (fst (DialContext NewTransport dial_ok)) 0 [1, 2])"

text \<open>
  \<open>fired_world\<close>: that world after \<open>Fire\<close>. \<open>reused_world\<close>: the world after a dial,
  a \<open>Write\<close> of byte 7, \<open>Close\<close>, a \<open>Write\<close> of byte 8 on the closed wrapper, and
  \<open>Fire\<close>; the wrapper withholds 8 with both its channels closed.
\<close>

definition fired_world :: world where
  "fired_world = held_world\<lparr>tr := (tr held_world)\<lparr>fired := 1\<rparr>, chans := [True]\<rparr>"

definition reused_world :: world where
  "reused_world =
     \<lparr>tr = \<lparr>dialStartCount = 1, dialInflight = 0, aliveCount = 0, heldCount = 1,
             fired = 1, fireChAtom = 0, notifyCh = 1\<rparr>,
      chans = [True],
      conns = [\<lparr>Conn = \<lparr>wire = [7], calls = [[7]], quota = None, isClosed = True\<rparr>,
                fireCh = 0, closeCh = True, held = 8, hasHeld = True, isCounted = True\<rparr>]\<rparr>"

subsection \<open>Counting along a run\<close>

text \<open>
  \<open>cnt i w\<close> is 1 when wrapper \<open>i\<close> exists and has \<open>isCounted\<close> set, else 0.
  \<open>dec_at\<close> observes a decrement of \<open>heldCount\<close> made by a \<open>Close\<close> of wrapper
  \<open>i\<close>: the step is that call and the counter is one lower after it. \<open>inc_at\<close>
  observes an increment made by a \<open>Write\<close> on wrapper \<open>i\<close>. \<open>held_decs\<close> and
  \<open>held_incs\<close> add them up along a run.
\<close>

definition cnt :: "nat \<Rightarrow> world \<Rightarrow> nat" where
  "cnt i w = (if i < length (conns w) \<and> isCounted (conns w ! i) then 1 else 0)"

definition dec_at :: "nat \<Rightarrow> world \<Rightarrow> call \<Rightarrow> world \<Rightarrow> nat" where
  "dec_at i w a w' =
     (if a = CallClose i \<and> heldCount (tr w') = heldCount (tr w) - 1 then 1 else 0)"

definition inc_at :: "nat \<Rightarrow> world \<Rightarrow> call \<Rightarrow> world \<Rightarrow> nat" where
  "inc_at i w a w' =
     (if writes_to i a \<and> heldCount (tr w') = heldCount (tr w) + 1 then 1 else 0)"

fun held_decs :: "nat \<Rightarrow> world \<Rightarrow> call list \<Rightarrow> nat" where
  "held_decs i w [] = 0"
| "held_decs i w (a # as) =
     (case step w a of
        None \<Rightarrow> 0
      | Some w' \<Rightarrow> dec_at i w a w' + held_decs i w' as)"

fun held_incs :: "nat \<Rightarrow> world \<Rightarrow> call list \<Rightarrow> nat" where
  "held_incs i w [] = 0"
| "held_incs i w (a # as) =
     (case step w a of
        None \<Rightarrow> 0
      | Some w' \<Rightarrow> inc_at i w a w' + held_incs i w' as)"

text \<open>\<open>closed_then_written i cs\<close>: in \<open>cs\<close> some \<open>Write\<close> on wrapper \<open>i\<close> comes after
  a \<open>Close\<close> of wrapper \<open>i\<close>.\<close>

fun closed_then_written :: "nat \<Rightarrow> call list \<Rightarrow> bool" where
  "closed_then_written i [] = False"
| "closed_then_written i (a # as) =
     (a = CallClose i \<and> list_ex (writes_to i) as \<or> closed_then_written i as)"

text \<open>
  An orderly call: a dial that succeeds returns an open connection, a \<open>Write\<close> or a
  \<open>Close\<close> names an existing wrapper whose underlying connection has not been closed,
  and the round is not reset. A run is orderly when each of its calls is, in the world
  it meets.
\<close>

fun orderly_call :: "world \<Rightarrow> call \<Rightarrow> bool" where
  "orderly_call w (CallDial outcome) = (case outcome of Inl err \<Rightarrow> True | Inr c \<Rightarrow> \<not> isClosed c)"
| "orderly_call w (CallWrite i b) = (i < length (conns w) \<and> \<not> isClosed (Conn (conns w ! i)))"
| "orderly_call w CallFire = True"
| "orderly_call w (CallRelease i pickFire) = True"
| "orderly_call w (CallClose i) = (i < length (conns w) \<and> \<not> isClosed (Conn (conns w ! i)))"
| "orderly_call w CallReset = False"

fun orderly :: "world \<Rightarrow> call list \<Rightarrow> bool" where
  "orderly w [] = True"
| "orderly w (a # as) =
     (orderly_call w a \<and> (case step w a of None \<Rightarrow> False | Some w' \<Rightarrow> orderly w' as))"

text \<open>
  \<open>counted\<close>: the wrappers with \<open>isCounted\<close> set; \<open>open_conns\<close>: the wrappers whose
  connection is open. The two tallies say that the transport's counters agree with
  them: \<open>heldCount\<close> with \<open>counted\<close> while \<open>fired\<close> is 0, \<open>aliveCount\<close> with
  \<open>open_conns\<close>, no counted wrapper being closed.
\<close>

definition counted :: "world \<Rightarrow> nat" where
  "counted w = length (filter isCounted (conns w))"

definition open_conns :: "world \<Rightarrow> nat" where
  "open_conns w = length (filter (\<lambda>sc. \<not> isClosed (Conn sc)) (conns w))"

definition held_tally :: "world \<Rightarrow> bool" where
  "held_tally w = (fired (tr w) \<noteq> 0 \<or> heldCount (tr w) = of_nat (counted w))"

definition alive_tally :: "world \<Rightarrow> bool" where
  "alive_tally w =
     (aliveCount (tr w) = of_nat (open_conns w) \<and>
      list_all (\<lambda>sc. \<not> (isCounted sc \<and> isClosed (Conn sc))) (conns w))"

section \<open>Properties\<close>

subsection \<open>The underlying connection\<close>

lemma conn_Write_calls: "calls (fst (conn_Write c b)) = calls c @ [b]"
  by (simp add: conn_Write_def Let_def split: option.splits)

lemma conn_Write_accepts:
  "accepts c (length b) \<Longrightarrow>
     snd (conn_Write c b) = (length b, None) \<and> wire (fst (conn_Write c b)) = wire c @ b"
  by (auto simp: accepts_def conn_Write_def Let_def split: option.splits)

lemma conn_Write_rejects:
  "\<not> accepts c (length b) \<Longrightarrow> snd (snd (conn_Write c b)) \<noteq> None"
  by (auto simp: accepts_def conn_Write_def Let_def split: option.splits)

lemma payload_nonempty: "b \<noteq> [] \<Longrightarrow> payload sc b \<noteq> []"
  by (simp add: payload_def)

lemma last_payload: "b \<noteq> [] \<Longrightarrow> last (payload sc b) = last b"
  by (simp add: payload_def)

lemma Write_buffer_unfold:
  assumes "b \<noteq> []" "f1 \<noteq> 1" "f2 \<noteq> 1"
  shows "Write f1 f2 t sc b =
     (let payload = payload sc b;
          t1 = (if isCounted sc then t else tryNotify (t\<lparr>heldCount := heldCount t + 1\<rparr>));
          sc3 = sc\<lparr>held := last payload, hasHeld := True, isCounted := True\<rparr>
      in if butlast payload = [] then (t1, sc3, length b, None)
         else (t1, sc3\<lparr>Conn := fst (conn_Write (Conn sc) (butlast payload))\<rparr>,
               case snd (snd (conn_Write (Conn sc) (butlast payload))) of
                 None \<Rightarrow> (length b, None) | Some err \<Rightarrow> (0, Some err)))"
  using assms
  by (auto simp: Write_def payload_def Let_def split: prod.splits option.splits)

lemma payload_simple_of: "payload_simple (simple_of sc) b = payload sc b"
  by (simp add: payload_simple_def payload_def simple_of_def)

lemma Write_simple_unfold:
  assumes "b \<noteq> []"
  shows "Write_simple sc b =
     (let payload = payload_simple sc b;
          sc2 = sc\<lparr>held_simple := last payload, hasHeld_simple := True\<rparr>
      in if butlast payload = [] then (sc2, length b, None)
         else (sc2\<lparr>Conn_simple := fst (conn_Write (Conn_simple sc) (butlast payload))\<rparr>,
               case snd (snd (conn_Write (Conn_simple sc) (butlast payload))) of
                 None \<Rightarrow> (length b, None) | Some err \<Rightarrow> (0, Some err)))"
  using assms
  by (auto simp: Write_simple_def payload_simple_def Let_def split: prod.splits option.splits)

lemma Write_fired_unchanged: "fired (fst (Write f1 f2 t sc b)) = fired t"
  by (auto simp: Write_def Let_def tryNotify_def split: prod.splits option.splits)

lemma Write_refines_step:
  assumes "f1 \<noteq> 1" "f2 \<noteq> 1"
  shows "Write_simple (simple_of sc) b =
     (simple_of (fst (snd (Write f1 f2 t sc b))), snd (snd (Write f1 f2 t sc b)))"
proof (cases "b = []")
  case True
  then show ?thesis by (simp add: Write_def Write_simple_def)
next
  case False
  then show ?thesis
    using assms
    by (simp add: Write_buffer_unfold Write_simple_unfold payload_simple_of Let_def)
      (simp add: simple_of_def)
qed

subsection \<open>Buffering writes\<close>

text \<open>
  Claim C3, amended. A non-empty \<open>b\<close> written while neither load of \<open>fired\<close> reads 1:
  \<open>Write\<close> forms the payload (withheld byte, if any, then \<open>b\<close>), keeps its last byte
  as the withheld byte, and hands all but the last byte to the underlying connection in
  one call (no call when there are none). When the connection accepts them they are on
  the wire and the result is \<open>(len(b), nil)\<close>; when it does not, the result is 0 and
  the connection's error, the last byte still being withheld.
\<close>

theorem Write_withholds_last_byte:
  assumes "b \<noteq> []" and "f1 \<noteq> 1" and "f2 \<noteq> 1"
  shows "let toSend = butlast (payload sc b);
             (t', sc', n, e) = Write f1 f2 t sc b
         in hasHeld sc' \<and> held sc' = last (payload sc b) \<and>
            calls (Conn sc') =
              (if toSend = [] then calls (Conn sc) else calls (Conn sc) @ [toSend]) \<and>
            (if accepts (Conn sc) (length toSend)
             then wire (Conn sc') = wire (Conn sc) @ toSend \<and> (n, e) = (length b, None)
             else if toSend = [] then (n, e) = (length b, None)
             else n = 0 \<and> e \<noteq> None)"
proof (cases "butlast (payload sc b) = []")
  case True
  then show ?thesis
    using assms by (simp add: Write_buffer_unfold Let_def)
next
  case False
  show ?thesis
  proof (cases "accepts (Conn sc) (length (butlast (payload sc b)))")
    case True
    from conn_Write_accepts [OF True] True False assms show ?thesis
      by (simp add: Write_buffer_unfold Let_def conn_Write_calls)
  next
    case False
    from conn_Write_rejects [OF False] \<open>butlast _ \<noteq> []\<close> False assms show ?thesis
      by (auto simp add: Write_buffer_unfold Let_def conn_Write_calls split: option.splits)
  qed
qed

theorem Write_withholds_last_byte_witness:
  "http_get \<noteq> [] \<and> (0::int32) \<noteq> 1 \<and>
   (let (t', sc', n, e) = Write 0 0 (tr NewTransport) fresh_wrapper http_get
    in hasHeld sc' \<and> held sc' = 10 \<and> length http_get = 18 \<and>
       wire (Conn sc') = take 17 http_get \<and> length (wire (Conn sc')) = 17 \<and>
       (n, e) = (18, None))"
  using Write_withholds_last_byte [of http_get 0 0 fresh_wrapper "tr NewTransport"]
  by (simp add: http_get_def fresh_wrapper_def fresh_conn_def accepts_def payload_def Let_def
      split: prod.splits)

text \<open>
  Claim C3 as stated promises \<open>(len(b), nil)\<close> for every non-empty \<open>b\<close>. On a
  connection that accepts no more bytes, writing two bytes to a fresh wrapper returns
  0 and the error.
\<close>

theorem Write_reports_failure_counterexample:
  "snd (snd (Write 0 0 (tr NewTransport)
               (fresh_wrapper\<lparr>Conn := fresh_conn\<lparr>quota := Some 0\<rparr>\<rparr>) [1, 2]))
     = (0, Some ErrWrite)"
  by (simp add: Write_def conn_Write_def fresh_wrapper_def fresh_conn_def NewTransport_def
      tryNotify_def Let_def)

text \<open>
  Claim C10. When the underlying write of the all-but-last bytes \<open>toSend\<close> fails with
  \<open>err\<close> during a buffering \<open>Write\<close>, the call returns \<open>(0, err)\<close> whatever count
  the connection reported; the wrapper holds the last byte of the payload (the last byte
  of \<open>b\<close>) with \<open>hasHeld\<close> set, is counted in \<open>heldCount\<close> (incremented if it was
  not yet), and the byte withheld before is not kept: it went out with \<open>toSend\<close>. The
  simple wrapper of volley.go does the same, without the counter.
\<close>

theorem Write_failure_keeps_last_byte:
  assumes "b \<noteq> []" and "f1 \<noteq> 1" and "f2 \<noteq> 1"
    and "toSend = butlast (payload sc b)"
    and "toSend \<noteq> []"
    and "snd (snd (conn_Write (Conn sc) toSend)) = Some err"
  shows "(let (t', sc', n, e) = Write f1 f2 t sc b
          in (n, e) = (0, Some err) \<and> hasHeld sc' \<and> held sc' = last b \<and> isCounted sc' \<and>
             heldCount t' = (if isCounted sc then heldCount t else heldCount t + 1) \<and>
             calls (Conn sc') = calls (Conn sc) @ [toSend]) \<and>
         (let (sc', n, e) = Write_simple (simple_of sc) b
          in (n, e) = (0, Some err) \<and> hasHeld_simple sc' \<and> held_simple sc' = last b \<and>
             calls (Conn_simple sc') = calls (Conn sc) @ [toSend])"
proof -
  have s: "Conn_simple (simple_of sc) = Conn sc"
    by (simp add: simple_of_def)
  show ?thesis
    using assms
    by (simp add: Write_buffer_unfold Write_simple_unfold payload_simple_of last_payload s
        Let_def conn_Write_calls tryNotify_def)
qed

theorem Write_failure_keeps_last_byte_witness:
  "(let sc = fresh_wrapper\<lparr>Conn := fresh_conn\<lparr>quota := Some 1\<rparr>, held := 9, hasHeld := True\<rparr>;
        (t', sc', n, e) = Write 0 0 (tr NewTransport) sc [1, 2, 3]
    in snd (conn_Write (Conn sc) [9, 1, 2]) = (1, Some ErrWrite) \<and>
       (n, e) = (0, Some ErrWrite) \<and> hasHeld sc' \<and> held sc' = 3 \<and> isCounted sc' \<and>
       heldCount t' = 1 \<and> wire (Conn sc') = [9])"
proof -
  let ?sc = "fresh_wrapper\<lparr>Conn := fresh_conn\<lparr>quota := Some 1\<rparr>, held := 9, hasHeld := True\<rparr>"
  have c: "snd (conn_Write (Conn ?sc) [9, 1, 2]) = (1, Some ErrWrite)"
    by (simp add: conn_Write_def fresh_wrapper_def fresh_conn_def Let_def)
  have w: "wire (fst (conn_Write (Conn ?sc) [9, 1, 2])) = [9]"
    by (simp add: conn_Write_def fresh_wrapper_def fresh_conn_def Let_def)
  have p: "[9, 1, 2] = butlast (payload ?sc [1, 2, 3])"
    by (simp add: payload_def fresh_wrapper_def)
  have e: "snd (snd (conn_Write (Conn ?sc) [9, 1, 2])) = Some ErrWrite"
    using c by simp
  from Write_failure_keeps_last_byte [of "[1, 2, 3]" 0 0 "[9, 1, 2]" ?sc ErrWrite "tr NewTransport",
      OF _ _ _ p _ e]
  show ?thesis
    by (simp add: Write_def conn_Write_def fresh_wrapper_def fresh_conn_def NewTransport_def
        tryNotify_def Let_def)
qed

subsection \<open>The two wrappers agree\<close>

text \<open>
  Claim C9. While \<open>fired\<close> is not 1 (no \<open>Fire\<close>) and nothing is closed, any sequence
  of \<open>Write\<close> calls drives the simple wrapper of volley.go and the counter-tracking
  wrapper alike: same underlying connection afterwards (bytes on the wire, calls made),
  same withheld byte and \<open>hasHeld\<close>, same list of \<open>(n, err)\<close> results.
\<close>

theorem Writes_refines_simple:
  "fired t \<noteq> 1 \<Longrightarrow>
     Writes_simple (simple_of sc) bs =
       (simple_of (fst (snd (Writes t sc bs))), snd (snd (Writes t sc bs)))"
proof (induction bs arbitrary: t sc)
  case Nil
  then show ?case by simp
next
  case (Cons b bs)
  obtain t1 sc1 r where w: "Write (fired t) (fired t) t sc b = (t1, sc1, r)"
    by (cases "Write (fired t) (fired t) t sc b") auto
  have f: "fired t1 \<noteq> 1"
    using Write_fired_unchanged [of "fired t" "fired t" t sc b] w Cons.prems by simp
  have s: "Write_simple (simple_of sc) b = (simple_of sc1, r)"
    using Write_refines_step [OF Cons.prems Cons.prems, of sc b t] w by simp
  show ?case
    using Cons.IH [OF f, of sc1] w s by (simp add: Let_def split: prod.splits)
qed

theorem Writes_refines_simple_witness:
  "fired (tr NewTransport) \<noteq> 1 \<and>
   Writes_simple (simple_of fresh_wrapper) [http_get, [1, 2], [3]] =
     (\<lparr>Conn_simple = fresh_conn\<lparr>wire := butlast http_get @ [10, 1, 2],
                                 calls := [butlast http_get, [10, 1], [2]]\<rparr>,
        held_simple = 3, hasHeld_simple = True\<rparr>,
      [(18, None), (2, None), (1, None)])"
  using Writes_refines_simple [of "tr NewTransport" fresh_wrapper "[http_get, [1, 2], [3]]"]
  by (simp add: NewTransport_def fresh_wrapper_def fresh_conn_def http_get_def simple_of_def
      Write_def conn_Write_def tryNotify_def Let_def)

subsection \<open>Evaluation of concrete runs\<close>

lemmas eval_defs = NewTransport_def dial_ok_def fresh_conn_def DialContext_def trackDial_def
  trackDial_begin_def trackDial_end_def wrapConn_def tryNotify_def Write_at_def Write_def
  Close_at_def Close_def conn_Write_def conn_Close_def Fire_def close_chan_def waitForFire_def
  release_def Reset_def Let_def

subsection \<open>Dialling\<close>

text \<open>
  Claim C8. A dial while \<open>fired\<close> is not 1: before the connection attempt
  \<open>dialStartCount\<close> and \<open>dialInflight\<close> are each one higher and nothing else has
  moved; on completion \<open>dialInflight\<close> is one lower again, whatever the outcome, and a
  notification is pending. A failed dial returns the error, creates no wrapper and
  leaves \<open>aliveCount\<close> as it was; a successful one appends a fresh wrapper around the
  connection, raises \<open>aliveCount\<close> by one and returns that wrapper.
\<close>

theorem trackDial_lifecycle:
  assumes "fired (tr w) \<noteq> 1"
  shows "let t0 = tr w;
             t1 = trackDial_begin t0;
             (w', r) = DialContext w outcome
         in dialStartCount t1 = dialStartCount t0 + 1 \<and>
            dialInflight t1 = dialInflight t0 + 1 \<and>
            aliveCount t1 = aliveCount t0 \<and> heldCount t1 = heldCount t0 \<and>
            notifyCh t1 = notifyCh t0 \<and>
            (w', r) = (case trackDial_end (w\<lparr>tr := t1\<rparr>) outcome of
                         (w2, Inl err) \<Rightarrow> (w2, Inl err)
                       | (w2, Inr i) \<Rightarrow> (w2, Inr (Wrapped i))) \<and>
            dialStartCount (tr w') = dialStartCount t1 \<and>
            dialInflight (tr w') = dialInflight t1 - 1 \<and>
            heldCount (tr w') = heldCount t0 \<and>
            0 < notifyCh (tr w') \<and>
            (case outcome of
               Inl err \<Rightarrow>
                 r = Inl err \<and> conns w' = conns w \<and> aliveCount (tr w') = aliveCount t0
             | Inr c \<Rightarrow>
                 r = Inr (Wrapped (length (conns w))) \<and>
                 conns w' = conns w @ [fresh_wrapper\<lparr>Conn := c, fireCh := fireChAtom t0\<rparr>] \<and>
                 aliveCount (tr w') = aliveCount t0 + 1)"
  using assms
  by (cases outcome)
     (simp_all add: DialContext_def trackDial_def trackDial_begin_def trackDial_end_def
        wrapConn_def tryNotify_def fresh_wrapper_def Let_def)

theorem trackDial_lifecycle_witness:
  "fired (tr NewTransport) \<noteq> 1 \<and>
   (let (w1, r1) = DialContext NewTransport (Inl ErrDial);
        (w2, r2) = DialContext w1 dial_ok
    in r1 = Inl ErrDial \<and> conns w1 = [] \<and> dialStartCount (tr w1) = 1 \<and>
       dialInflight (tr w1) = 0 \<and> aliveCount (tr w1) = 0 \<and> notifyCh (tr w1) = 1 \<and>
       r2 = Inr (Wrapped 0) \<and> conns w2 = [fresh_wrapper] \<and> dialStartCount (tr w2) = 2 \<and>
       dialInflight (tr w2) = 0 \<and> aliveCount (tr w2) = 1 \<and> notifyCh (tr w2) = 1)"
  using trackDial_lifecycle [of NewTransport "Inl ErrDial"]
  by (simp add: eval_defs fresh_wrapper_def)

subsection \<open>Fire\<close>

lemma Write_frame:
  "fired (fst (Write f1 f2 t sc b)) = fired t \<and>
   fireChAtom (fst (Write f1 f2 t sc b)) = fireChAtom t \<and>
   aliveCount (fst (Write f1 f2 t sc b)) = aliveCount t \<and>
   dialStartCount (fst (Write f1 f2 t sc b)) = dialStartCount t \<and>
   dialInflight (fst (Write f1 f2 t sc b)) = dialInflight t"
  by (auto simp: Write_def Let_def tryNotify_def split: prod.splits option.splits)

lemma Close_frame:
  "fired (fst (Close t sc)) = fired t \<and>
   fireChAtom (fst (Close t sc)) = fireChAtom t \<and>
   dialStartCount (fst (Close t sc)) = dialStartCount t \<and>
   dialInflight (fst (Close t sc)) = dialInflight t"
  by (auto simp: Close_def Let_def tryNotify_def split: prod.splits)

lemma DialContext_frame:
  "fired (tr (fst (DialContext w outcome))) = fired (tr w) \<and>
   fireChAtom (tr (fst (DialContext w outcome))) = fireChAtom (tr w) \<and>
   chans (fst (DialContext w outcome)) = chans w \<and>
   heldCount (tr (fst (DialContext w outcome))) = heldCount (tr w)"
  by (cases outcome)
     (simp_all add: DialContext_def trackDial_def trackDial_begin_def trackDial_end_def
        wrapConn_def tryNotify_def Let_def)

lemma step_frame:
  assumes "step w a = Some w'" and "a \<noteq> CallFire" and "a \<noteq> CallReset"
  shows "fired (tr w') = fired (tr w) \<and> fireChAtom (tr w') = fireChAtom (tr w) \<and>
         chans w' = chans w"
proof (cases a)
  case (CallDial outcome)
  with assms DialContext_frame [of w outcome] show ?thesis by auto
next
  case (CallWrite i b)
  with assms Write_frame [of "fired (tr w)" "fired (tr w)" "tr w" "conns w ! i" b] show ?thesis
    by (auto simp: Write_at_def split: if_splits prod.splits)
next
  case (CallRelease i p)
  with assms show ?thesis by (auto split: if_splits)
next
  case (CallClose i)
  with assms Close_frame [of "tr w" "conns w ! i"] show ?thesis
    by (auto simp: Close_at_def split: if_splits prod.splits)
qed (use assms in auto)

lemma Fire_armed:
  assumes "armed w"
  shows "Fire w = Some (if fired (tr w) = 0
                        then w\<lparr>tr := (tr w)\<lparr>fired := 1\<rparr>,
                               chans := (chans w)[fireChAtom (tr w) := True]\<rparr>
                        else w)"
  using assms by (simp add: armed_def Fire_def close_chan_def)

lemma Fire_armed_result:
  assumes "armed w" and "Fire w = Some w1"
  shows "armed w1 \<and> fired (tr w1) = 1"
  using assms by (auto simp: armed_def Fire_def close_chan_def split: if_splits)

lemma Reset_armed: "armed (Reset w)"
  by (simp add: armed_def Reset_def nth_append)

lemma step_armed:
  assumes "armed w"
  shows "\<exists>w'. step w a = Some w' \<and> armed w'"
proof (cases "a = CallFire \<or> a = CallReset")
  case True
  then show ?thesis
    using Fire_armed [OF assms] Fire_armed_result [OF assms] Reset_armed [of w] by auto
next
  case False
  then have "\<exists>w'. step w a = Some w'"
    by (cases a) simp_all
  then obtain w' where s: "step w a = Some w'" ..
  from step_frame [OF s] False assms have "armed w'"
    by (simp add: armed_def)
  with s show ?thesis by blast
qed

lemma run_armed:
  assumes "armed w"
  shows "\<exists>w'. run w cs = Some w' \<and> armed w'"
  using assms
proof (induction cs arbitrary: w)
  case Nil
  then show ?case by simp
next
  case (Cons a cs)
  from step_armed [OF Cons.prems, of a] obtain w1 where "step w a = Some w1" "armed w1"
    by blast
  with Cons.IH [of w1] show ?case by simp
qed

lemma NewTransport_armed: "armed NewTransport"
  by (simp add: armed_def NewTransport_def)

lemma run_stays_fired:
  assumes "armed w" and "fired (tr w) = 1" and "CallReset \<notin> set cs" and "run w cs = Some w2"
  shows "armed w2 \<and> fired (tr w2) = 1 \<and> chans w2 = chans w"
  using assms
proof (induction cs arbitrary: w)
  case Nil
  then show ?case by simp
next
  case (Cons a cs)
  from Cons.prems obtain w1 where s: "step w a = Some w1" and r: "run w1 cs = Some w2"
    by (auto split: option.splits)
  have "armed w1 \<and> fired (tr w1) = 1 \<and> chans w1 = chans w"
  proof (cases "a = CallFire")
    case True
    with s Cons.prems show ?thesis by (simp add: Fire_def)
  next
    case False
    moreover from Cons.prems have "a \<noteq> CallReset" by auto
    ultimately have "fired (tr w1) = 1 \<and> chans w1 = chans w"
      using step_frame [OF s] Cons.prems by simp
    moreover from step_armed [OF Cons.prems(1), of a] s have "armed w1" by simp
    ultimately show ?thesis by simp
  qed
  with Cons.IH [of w1] r Cons.prems show ?case by simp
qed

text \<open>
  Claim C4. In every state a run reaches, \<open>Fire\<close> returns without panic. If
  \<open>fired\<close> was 0 it sets \<open>fired\<close> to 1 and closes the current broadcast channel,
  which was open, and changes nothing else; otherwise it changes nothing. Afterwards,
  through any calls of the same round (no \<open>Reset\<close>), \<open>fired\<close> stays 1, no channel is
  closed again, and every further \<open>Fire\<close> leaves the whole state as it is.
\<close>

theorem Fire_once_per_round:
  assumes "run NewTransport cs = Some w"
  shows "\<exists>w1. Fire w = Some w1 \<and>
           w1 = (if fired (tr w) = 0
                 then w\<lparr>tr := (tr w)\<lparr>fired := 1\<rparr>,
                        chans := (chans w)[fireChAtom (tr w) := True]\<rparr>
                 else w) \<and>
           (fired (tr w) = 0 \<longrightarrow> \<not> chans w ! fireChAtom (tr w)) \<and>
           fired (tr w1) = 1 \<and> chans w1 ! fireChAtom (tr w1) \<and>
           (\<forall>cs' w2. CallReset \<notin> set cs' \<longrightarrow> run w1 cs' = Some w2 \<longrightarrow>
              Fire w2 = Some w2 \<and> fired (tr w2) = 1 \<and> chans w2 = chans w1)"
proof -
  from run_armed [OF NewTransport_armed, of cs] assms have a: "armed w" by simp
  define w1 where "w1 = (if fired (tr w) = 0
                 then w\<lparr>tr := (tr w)\<lparr>fired := 1\<rparr>,
                        chans := (chans w)[fireChAtom (tr w) := True]\<rparr>
                 else w)"
  have f: "Fire w = Some w1"
    using Fire_armed [OF a] by (simp add: w1_def)
  from Fire_armed_result [OF a f] have a1: "armed w1" and f1: "fired (tr w1) = 1"
    by simp_all
  have open0: "fired (tr w) = 0 \<longrightarrow> \<not> chans w ! fireChAtom (tr w)"
    using a by (simp add: armed_def)
  have closed1: "chans w1 ! fireChAtom (tr w1)"
    using a1 f1 by (simp add: armed_def)
  have later: "Fire w2 = Some w2 \<and> fired (tr w2) = 1 \<and> chans w2 = chans w1"
    if "CallReset \<notin> set cs'" and "run w1 cs' = Some w2" for cs' w2
    using run_stays_fired [OF a1 f1 that] by (simp add: Fire_def)
  show ?thesis
    using f open0 f1 closed1 later unfolding w1_def by blast
qed

theorem Fire_once_per_round_witness:
  "(let w = fst (Write_at (fst (DialContext NewTransport dial_ok)) 0 [1, 2]);
        w1 = w\<lparr>tr := (tr w)\<lparr>fired := 1\<rparr>, chans := [True]\<rparr>
    in run NewTransport [CallDial dial_ok, CallWrite 0 [1, 2]] = Some w \<and>
       fired (tr w) = 0 \<and> chans w = [False] \<and>
       Fire w = Some w1 \<and> Fire w1 = Some w1 \<and>
       run w1 [CallFire, CallRelease 0 True, CallFire] =
         Some (w1\<lparr>conns := [release (conns w1 ! 0)]\<rparr>) \<and>
       Fire (w1\<lparr>conns := [release (conns w1 ! 0)]\<rparr>) = Some (w1\<lparr>conns := [release (conns w1 ! 0)]\<rparr>))"
proof -
  have r: "run NewTransport [CallDial dial_ok, CallWrite 0 [1, 2]] =
             Some (fst (Write_at (fst (DialContext NewTransport dial_ok)) 0 [1, 2]))"
    by (simp add: eval_defs)
  from Fire_once_per_round [OF r] show ?thesis
    by (simp add: eval_defs)
qed

subsection \<open>Wait\<close>

text \<open>
  Claim C1, at the input where the code departs from it. Three dials succeed and two of
  the wrappers withhold a byte: \<open>dialStartCount = 3\<close>, \<open>dialInflight = 0\<close>,
  \<open>heldCount = 2\<close>, \<open>aliveCount = 3\<close>. With \<open>want = 2\<close> the conditions (a), (b) and
  \<open>heldCount \<ge> want\<close> of the claim hold, yet \<open>check\<close> is false: \<open>Wait\<close> stays
  blocked through every notification that finds this state and ends with the context's
  error.
\<close>

theorem Wait_blocks_with_held_at_want:
  "(case run NewTransport
           [CallDial dial_ok, CallDial dial_ok, CallDial dial_ok, CallWrite 0 [1], CallWrite 1 [2]] of
      None \<Rightarrow> False
    | Some w \<Rightarrow>
        dialStartCount (tr w) = 3 \<and> dialInflight (tr w) = 0 \<and> aliveCount (tr w) = 3 \<and>
        heldCount (tr w) = 2 \<and> fired (tr w) = 0 \<and>
        check (tr w) 2 = False \<and>
        Wait (tr w) [Notified (tr w), Notified (tr w)] 2 = None \<and>
        Wait (tr w) [Notified (tr w), CtxDone] 2 = Some (Some DeadlineExceeded))"
  by (simp add: eval_defs check_def Wait_def word_sless_alt)

subsection \<open>Writes after Fire\<close>

text \<open>
  Claim C5, at the input where the code departs from it. After \<open>Fire\<close> and before
  the wrapper's listener has run \<open>release\<close>, the wrapper still withholds the byte 2.
  A \<open>Write\<close> of three bytes takes the lock-free path: the three bytes go out at once,
  the withheld byte is not flushed first, and the listener's \<open>release\<close> puts it on
  the wire after them.
\<close>

theorem hot_path_Write_overtakes_withheld_byte:
  "(case run NewTransport [CallDial dial_ok, CallWrite 0 [1, 2], CallFire] of
      None \<Rightarrow> False
    | Some w \<Rightarrow>
        fired (tr w) = 1 \<and> hasHeld (conns w ! 0) \<and> held (conns w ! 0) = 2 \<and>
        wire (Conn (conns w ! 0)) = [1] \<and>
        (case Write_at w 0 [3, 4, 5] of
           (w', n, e) \<Rightarrow>
             (n, e) = (3, None) \<and> hasHeld (conns w' ! 0) \<and>
             wire (Conn (conns w' ! 0)) = [1, 3, 4, 5] \<and>
             (case step w' (CallRelease 0 pickFire) of
                None \<Rightarrow> False
              | Some w'' \<Rightarrow> wire (Conn (conns w'' ! 0)) = [1, 3, 4, 5, 2])))"
  by (simp add: eval_defs)

subsection \<open>Release and Close\<close>

lemma Write_fired_path:
  "b \<noteq> [] \<Longrightarrow>
     Write 1 f2 t sc b = (t, sc\<lparr>Conn := fst (conn_Write (Conn sc) b)\<rparr>, snd (conn_Write (Conn sc) b))"
  by (simp add: Write_def split: prod.splits)

lemma Write_empty: "Write f1 f2 t sc [] = (t, sc, 0, None)"
  by (simp add: Write_def)

lemma conn_Write_isClosed: "isClosed (fst (conn_Write c b)) = isClosed c"
  by (simp add: conn_Write_def Let_def split: option.splits)

lemma Close_unfold:
  "Close t sc =
     (tryNotify ((if isCounted sc
                  then tryNotify (if fired t = 0 then t\<lparr>heldCount := heldCount t - 1\<rparr> else t)
                  else t)
                 \<lparr>aliveCount := aliveCount t - 1\<rparr>),
      sc\<lparr>isCounted := False, closeCh := (isCounted sc \<or> closeCh sc), hasHeld := False,
         Conn := (if hasHeld sc then fst (conn_Write (Conn sc) [held sc]) else Conn sc)
                 \<lparr>isClosed := True\<rparr>\<rparr>,
      if isClosed (Conn sc) then Some ErrClosed else None)"
  by (cases "isCounted sc"; cases "hasHeld sc"; cases "fired t = 0")
     (simp_all add: Close_def conn_Close_def tryNotify_def Let_def conn_Write_isClosed)

lemma DialContext_conns:
  "conns (fst (DialContext w outcome)) = conns w \<or>
   (\<exists>c. outcome = Inr c \<and> fired (tr w) \<noteq> 1 \<and>
        conns (fst (DialContext w outcome)) =
          conns w @ [fresh_wrapper\<lparr>Conn := c, fireCh := fireChAtom (tr w)\<rparr>])"
  by (cases outcome)
     (simp_all add: DialContext_def trackDial_def trackDial_begin_def trackDial_end_def
        wrapConn_def tryNotify_def fresh_wrapper_def Let_def)

lemma Fire_conns: "Fire w = Some w' \<Longrightarrow> conns w' = conns w"
  by (auto simp: Fire_def split: if_splits option.splits)

lemma step_wrapper:
  assumes "step w a = Some w'" and "i < length (conns w)" and "\<not> writes_to i a"
  shows "i < length (conns w') \<and>
         (conns w' ! i = conns w ! i \<or>
          (\<exists>p. a = CallRelease i p \<and> conns w' ! i = waitForFire (chans w) p (conns w ! i)) \<or>
          a = CallClose i \<and> conns w' ! i = fst (snd (Close (tr w) (conns w ! i))))"
proof (cases a)
  case (CallDial outcome)
  with assms DialContext_conns [of w outcome] show ?thesis
    by (auto simp: nth_append)
next
  case (CallWrite j b)
  with assms have "j \<noteq> i" by simp
  with assms CallWrite show ?thesis
    by (auto simp: Write_at_def split: if_splits prod.splits)
next
  case CallFire
  with assms Fire_conns [of w w'] show ?thesis by simp
next
  case (CallRelease j p)
  with assms show ?thesis
    by (cases "j = i") (auto split: if_splits)
next
  case (CallClose j)
  with assms show ?thesis
    by (cases "j = i") (auto simp: Close_at_def split: if_splits prod.splits)
next
  case CallReset
  with assms show ?thesis by (auto simp: Reset_def)
qed

lemma step_chans:
  assumes "step w a = Some w'" and "k < length (chans w)" and "chans w ! k"
  shows "k < length (chans w') \<and> chans w' ! k"
proof (cases "a = CallFire \<or> a = CallReset")
  case True
  with assms show ?thesis
    by (auto simp: Fire_def close_chan_def Reset_def nth_append nth_list_update
        split: if_splits option.splits)
next
  case False
  with step_frame [OF assms(1)] assms show ?thesis by simp
qed

lemma release_written_once:
  assumes "hasHeld sc"
  shows "written_once sc (release sc) \<and> \<not> hasHeld (release sc)"
  using assms conn_Write_accepts [of "Conn sc" "[held sc]"]
  by (simp add: written_once_def release_def conn_Write_calls)

lemma Close_written_once:
  assumes "hasHeld sc"
  shows "written_once sc (fst (snd (Close t sc))) \<and> \<not> hasHeld (fst (snd (Close t sc))) \<and>
         isClosed (Conn (fst (snd (Close t sc))))"
  using assms conn_Write_accepts [of "Conn sc" "[held sc]"]
  by (simp add: written_once_def Close_unfold conn_Write_calls)

lemma release_idle: "\<not> hasHeld sc \<Longrightarrow> release sc = sc"
  by (simp add: release_def)

lemma Close_idle:
  assumes "\<not> hasHeld sc"
  shows "calls (Conn (fst (snd (Close t sc)))) = calls (Conn sc) \<and>
         wire (Conn (fst (snd (Close t sc)))) = wire (Conn sc) \<and>
         \<not> hasHeld (fst (snd (Close t sc))) \<and> isClosed (Conn (fst (snd (Close t sc)))) \<and>
         fireCh (fst (snd (Close t sc))) = fireCh sc"
  using assms by (simp add: Close_unfold)

lemma step_written_once:
  assumes s: "step w a = Some w'" and i: "i < length (conns w)" and nw: "\<not> writes_to i a"
    and inv: "written_once sc (conns w ! i)" and h: "hasHeld sc"
  shows "written_once sc (conns w' ! i)"
proof -
  from step_wrapper [OF s i nw]
  consider "conns w' ! i = conns w ! i"
    | p where "conns w' ! i = waitForFire (chans w) p (conns w ! i)"
    | "conns w' ! i = fst (snd (Close (tr w) (conns w ! i)))"
    by blast
  then show ?thesis
  proof cases
    case 1
    with inv show ?thesis by simp
  next
    case 2
    show ?thesis
    proof (cases "hasHeld (conns w ! i)")
      case True
      with inv have e: "conns w ! i = sc" by (simp add: written_once_def)
      with 2 release_written_once [OF h] inv show ?thesis
        by (simp add: waitForFire_def Let_def)
    next
      case False
      with 2 inv show ?thesis by (simp add: waitForFire_def Let_def release_idle)
    qed
  next
    case 3
    show ?thesis
    proof (cases "hasHeld (conns w ! i)")
      case True
      with inv have e: "conns w ! i = sc" by (simp add: written_once_def)
      with 3 Close_written_once [OF h] show ?thesis by simp
    next
      case False
      with 3 inv Close_idle [OF False, of "tr w"] show ?thesis
        by (simp add: written_once_def)
    qed
  qed
qed

lemma step_fireCh:
  assumes "step w a = Some w'" and "i < length (conns w)" and "\<not> writes_to i a"
  shows "fireCh (conns w' ! i) = fireCh (conns w ! i)"
  using step_wrapper [OF assms]
  by (auto simp: waitForFire_def Let_def release_def Close_unfold)

lemma waitForFire_idle: "\<not> hasHeld sc \<Longrightarrow> waitForFire cs p sc = sc"
  by (simp add: waitForFire_def Let_def release_def)

lemma step_idle:
  assumes "step w a = Some w'" and "i < length (conns w)" and "\<not> writes_to i a"
    and "\<not> hasHeld (conns w ! i)"
  shows "\<not> hasHeld (conns w' ! i) \<and>
         (if isClosed (Conn (conns w ! i)) then isClosed (Conn (conns w' ! i)) else True)"
  using step_wrapper [OF assms(1-3)] assms(4)
  by (auto simp: waitForFire_idle Close_unfold)

lemma run_idle:
  assumes "run w cs = Some w'" and "i < length (conns w)" and "\<forall>a\<in>set cs. \<not> writes_to i a"
    and "\<not> hasHeld (conns w ! i)"
  shows "\<not> hasHeld (conns w' ! i) \<and>
         (if isClosed (Conn (conns w ! i)) then isClosed (Conn (conns w' ! i)) else True)"
  using assms
proof (induction cs arbitrary: w)
  case Nil
  then show ?case by simp
next
  case (Cons a cs)
  from Cons.prems obtain w1 where s: "step w a = Some w1" and r: "run w1 cs = Some w'"
    by (auto split: option.splits)
  from Cons.prems have nw: "\<not> writes_to i a" by simp
  from step_wrapper [OF s Cons.prems(2) nw] have l: "i < length (conns w1)" by simp
  from step_idle [OF s Cons.prems(2) nw Cons.prems(4)]
  have h1: "\<not> hasHeld (conns w1 ! i)"
    and c1: "if isClosed (Conn (conns w ! i)) then isClosed (Conn (conns w1 ! i)) else True"
    by simp_all
  from Cons.IH [OF r l _ h1] Cons.prems(3) c1 show ?case
    by (auto split: if_splits)
qed

lemma run_written_once:
  assumes "run w cs = Some w'" and "i < length (conns w)" and "\<forall>a\<in>set cs. \<not> writes_to i a"
    and "written_once sc (conns w ! i)" and "hasHeld sc"
  shows "i < length (conns w') \<and> written_once sc (conns w' ! i)"
  using assms
proof (induction cs arbitrary: w)
  case Nil
  then show ?case by simp
next
  case (Cons a cs)
  from Cons.prems obtain w1 where s: "step w a = Some w1" and r: "run w1 cs = Some w'"
    by (auto split: option.splits)
  from Cons.prems have nw: "\<not> writes_to i a" by simp
  from step_wrapper [OF s Cons.prems(2) nw] have l: "i < length (conns w1)" by simp
  from step_written_once [OF s Cons.prems(2) nw Cons.prems(4) Cons.prems(5)]
  have "written_once sc (conns w1 ! i)" .
  from Cons.IH [OF r l _ this Cons.prems(5)] Cons.prems(3) show ?case by simp
qed

lemma run_Close_delivers:
  assumes "run w cs = Some w'" and "i < length (conns w)" and "\<forall>a\<in>set cs. \<not> writes_to i a"
    and "CallClose i \<in> set cs"
  shows "\<not> hasHeld (conns w' ! i) \<and> isClosed (Conn (conns w' ! i))"
  using assms
proof (induction cs arbitrary: w)
  case Nil
  then show ?case by simp
next
  case (Cons a cs)
  from Cons.prems obtain w1 where s: "step w a = Some w1" and r: "run w1 cs = Some w'"
    by (auto split: option.splits)
  from Cons.prems have nw: "\<not> writes_to i a" and nws: "\<forall>a\<in>set cs. \<not> writes_to i a"
    by simp_all
  from step_wrapper [OF s Cons.prems(2) nw] have l: "i < length (conns w1)" by simp
  show ?case
  proof (cases "a = CallClose i")
    case True
    with s Cons.prems(2) have "conns w1 ! i = fst (snd (Close (tr w) (conns w ! i)))"
      by (auto simp: Close_at_def split: prod.splits)
    then have "\<not> hasHeld (conns w1 ! i)" and "isClosed (Conn (conns w1 ! i))"
      by (simp_all add: Close_unfold)
    with run_idle [OF r l nws] show ?thesis by simp
  next
    case False
    with Cons.prems(4) have "CallClose i \<in> set cs" by simp
    from Cons.IH [OF r l nws this] show ?thesis .
  qed
qed

lemma waitForFire_pending: "hasHeld (waitForFire cs p sc) \<Longrightarrow> waitForFire cs p sc = sc"
  by (auto simp: waitForFire_def Let_def release_def split: if_splits)

lemma waitForFire_fires:
  assumes "fireCh sc < length cs" and "cs ! fireCh sc" and "p \<or> \<not> closeCh sc"
  shows "\<not> hasHeld (waitForFire cs p sc)"
  using assms by (auto simp: waitForFire_def Let_def release_def)

lemma step_pending_same:
  assumes "step w a = Some w'" and "i < length (conns w)" and "\<not> writes_to i a"
    and "hasHeld (conns w' ! i)"
  shows "conns w' ! i = conns w ! i"
  using step_wrapper [OF assms(1-3)] assms(4) waitForFire_pending
  by (auto simp: Close_unfold)

lemma run_release_delivers:
  assumes "run w cs = Some w'" and "i < length (conns w)" and "\<forall>a\<in>set cs. \<not> writes_to i a"
    and "fireCh (conns w ! i) < length (chans w)" and "chans w ! fireCh (conns w ! i)"
    and "CallRelease i p \<in> set cs" and "p \<or> \<not> closeCh (conns w ! i)"
  shows "\<not> hasHeld (conns w' ! i)"
  using assms
proof (induction cs arbitrary: w)
  case Nil
  then show ?case by simp
next
  case (Cons a cs)
  from Cons.prems obtain w1 where s: "step w a = Some w1" and r: "run w1 cs = Some w'"
    by (auto split: option.splits)
  from Cons.prems have nw: "\<not> writes_to i a" and nws: "\<forall>a\<in>set cs. \<not> writes_to i a"
    by simp_all
  from step_wrapper [OF s Cons.prems(2) nw] have l: "i < length (conns w1)" by simp
  show ?case
  proof (cases "hasHeld (conns w1 ! i)")
    case False
    with run_idle [OF r l nws] show ?thesis by simp
  next
    case True
    from step_pending_same [OF s Cons.prems(2) nw True]
    have same: "conns w1 ! i = conns w ! i" .
    have "a \<noteq> CallRelease i p"
    proof
      assume "a = CallRelease i p"
      with s Cons.prems(2)
      have "conns w1 ! i = waitForFire (chans w) p (conns w ! i)" by auto
      with waitForFire_fires [OF Cons.prems(4) Cons.prems(5) Cons.prems(7)] True
      show False by simp
    qed
    with Cons.prems(6) have m: "CallRelease i p \<in> set cs" by simp
    from step_chans [OF s Cons.prems(4) Cons.prems(5)] same
    have c: "fireCh (conns w1 ! i) < length (chans w1)" "chans w1 ! fireCh (conns w1 ! i)"
      by simp_all
    from Cons.prems(7) same have q: "p \<or> \<not> closeCh (conns w1 ! i)" by simp
    from Cons.IH [OF r l nws c m q] show ?thesis .
  qed
qed

lemma run_append:
  "run w (xs @ ys) = (case run w xs of None \<Rightarrow> None | Some w1 \<Rightarrow> run w1 ys)"
  by (induction xs arbitrary: w) (auto split: option.splits)

lemma run_armed_result:
  assumes "run w cs = Some w'" and "armed w"
  shows "armed w'"
  using run_armed [OF assms(2), of cs] assms(1) by auto

lemma step_fireChAtom:
  assumes "step w a = Some w'" and "a \<noteq> CallReset"
  shows "fireChAtom (tr w') = fireChAtom (tr w)"
proof (cases "a = CallFire")
  case True
  with assms show ?thesis
    by (auto simp: Fire_def split: if_splits option.splits)
next
  case False
  from step_frame [OF assms(1) False assms(2)] show ?thesis by simp
qed

lemma run_fireChAtom:
  assumes "run w cs = Some w'" and "CallReset \<notin> set cs"
  shows "fireChAtom (tr w') = fireChAtom (tr w)"
  using assms
proof (induction cs arbitrary: w)
  case Nil
  then show ?case by simp
next
  case (Cons a cs)
  from Cons.prems obtain w1 where s: "step w a = Some w1" and r: "run w1 cs = Some w'"
    by (auto split: option.splits)
  from Cons.prems have "a \<noteq> CallReset" and n: "CallReset \<notin> set cs" by auto
  from step_fireChAtom [OF s this(1)] Cons.IH [OF r n] show ?case by simp
qed

lemma run_Fire_release_delivers:
  assumes r: "run w (pre @ CallFire # post) = Some w'" and i: "i < length (conns w)"
    and nw: "\<forall>a\<in>set (pre @ CallFire # post). \<not> writes_to i a"
    and h: "hasHeld (conns w ! i)" and a: "armed w"
    and f: "fireCh (conns w ! i) = fireChAtom (tr w)"
    and nr: "CallReset \<notin> set (pre @ CallFire # post)"
    and m: "CallRelease i p \<in> set post" and q: "p \<or> \<not> closeCh (conns w ! i)"
  shows "\<not> hasHeld (conns w' ! i)"
proof -
  from r obtain wa wb where ra: "run w pre = Some wa" and fb: "Fire wa = Some wb"
    and rb: "run wb post = Some w'"
    by (auto simp: run_append split: option.splits)
  from nw have nwa: "\<forall>a\<in>set pre. \<not> writes_to i a" and nwb: "\<forall>a\<in>set post. \<not> writes_to i a"
    by simp_all
  from nr have nra: "CallReset \<notin> set pre" by simp
  have "written_once (conns w ! i) (conns w ! i)"
    using h by (simp add: written_once_def)
  from run_written_once [OF ra i nwa this h]
  have la: "i < length (conns wa)" and oa: "written_once (conns w ! i) (conns wa ! i)"
    by simp_all
  from Fire_conns [OF fb] have cb: "conns wb = conns wa" .
  with la have lb: "i < length (conns wb)" by simp
  show ?thesis
  proof (cases "hasHeld (conns wa ! i)")
    case False
    with cb have "\<not> hasHeld (conns wb ! i)" by simp
    with run_idle [OF rb lb nwb] show ?thesis by simp
  next
    case True
    with oa have same: "conns wa ! i = conns w ! i"
      by (simp add: written_once_def)
    from run_armed_result [OF ra a] have aa: "armed wa" .
    from Fire_armed_result [OF aa fb] have ab: "armed wb" and f1: "fired (tr wb) = 1"
      by simp_all
    from fb have "fireChAtom (tr wb) = fireChAtom (tr wa)"
      by (auto simp: Fire_def split: if_splits option.splits)
    with run_fireChAtom [OF ra nra] have e: "fireChAtom (tr wb) = fireChAtom (tr w)"
      by simp
    from ab f1 e have "fireChAtom (tr w) < length (chans wb)" and "chans wb ! fireChAtom (tr w)"
      by (simp_all add: armed_def)
    with f same cb
    have c: "fireCh (conns wb ! i) < length (chans wb)" "chans wb ! fireCh (conns wb ! i)"
      by simp_all
    from q same cb have q': "p \<or> \<not> closeCh (conns wb ! i)" by simp
    from run_release_delivers [OF rb lb nwb c m q'] show ?thesis .
  qed
qed

lemma held_world_eval:
  "held_world =
     \<lparr>tr = \<lparr>dialStartCount = 1, dialInflight = 0, aliveCount = 1, heldCount = 1,
             fired = 0, fireChAtom = 0, notifyCh = 1\<rparr>,
      chans = [False],
      conns = [\<lparr>Conn = \<lparr>wire = [1], calls = [[1]], quota = None, isClosed = False\<rparr>,
                fireCh = 0, closeCh = False, held = 2, hasHeld = True, isCounted = True\<rparr>]\<rparr>"
  by (simp add: held_world_def eval_defs)

lemma fired_world_eval:
  "fired_world =
     \<lparr>tr = \<lparr>dialStartCount = 1, dialInflight = 0, aliveCount = 1, heldCount = 1,
             fired = 1, fireChAtom = 0, notifyCh = 1\<rparr>,
      chans = [True],
      conns = [\<lparr>Conn = \<lparr>wire = [1], calls = [[1]], quota = None, isClosed = False\<rparr>,
                fireCh = 0, closeCh = False, held = 2, hasHeld = True, isCounted = True\<rparr>]\<rparr>"
  by (simp add: fired_world_def held_world_eval)

text \<open>
  Claim C2. A wrapper withholds a byte. Through any calls that follow, in any order
  (\<open>Fire\<close>, turns of the listener, \<open>Close\<close>, dials, calls on other wrappers, even
  \<open>Reset\<close>), as long as no \<open>Write\<close> on this wrapper replaces the byte: either the
  byte is still withheld and the wrapper untouched, or it was handed to the underlying
  connection in exactly one call of its own, and is on the wire if the connection took
  it. It is never written twice. Once the calls contain a \<open>Close\<close> of the wrapper the
  byte has been written and the connection is closed (so the write came before the
  close). Once the listener has had a turn after the broadcast in which its \<open>select\<close>
  takes the broadcast case, the byte has been written by \<open>release\<close>: that is every
  turn while the wrapper's \<open>closeCh\<close> is open, and with \<open>closeCh\<close> closed the turns
  where Go picks that case. The broadcast may have happened before the calls (third
  part) or be a \<open>Fire\<close> among them, on an armed transport whose current channel is the
  wrapper's (fourth part).
\<close>

theorem withheld_byte_written_once:
  assumes "run w cs = Some w'" and "i < length (conns w)" and "hasHeld (conns w ! i)"
    and "\<forall>a\<in>set cs. \<not> writes_to i a"
  shows "let sc = conns w ! i; sc' = conns w' ! i
         in (if hasHeld sc' then sc' = sc
             else calls (Conn sc') = calls (Conn sc) @ [[held sc]] \<and>
                  (accepts (Conn sc) 1 \<longrightarrow> wire (Conn sc') = wire (Conn sc) @ [held sc])) \<and>
            (CallClose i \<in> set cs \<longrightarrow> \<not> hasHeld sc' \<and> isClosed (Conn sc')) \<and>
            (fireCh sc < length (chans w) \<and> chans w ! fireCh sc \<and>
             (\<exists>p. CallRelease i p \<in> set cs \<and> (p \<or> \<not> closeCh sc))
               \<longrightarrow> \<not> hasHeld sc') \<and>
            (armed w \<and> fireCh sc = fireChAtom (tr w) \<and> CallReset \<notin> set cs \<and>
             (\<exists>pre post p. cs = pre @ CallFire # post \<and> CallRelease i p \<in> set post \<and>
                            (p \<or> \<not> closeCh sc))
               \<longrightarrow> \<not> hasHeld sc')"
proof -
  have "written_once (conns w ! i) (conns w ! i)"
    using assms(3) by (simp add: written_once_def)
  from run_written_once [OF assms(1,2,4) this assms(3)]
  have once: "written_once (conns w ! i) (conns w' ! i)" by simp
  have closing: "\<not> hasHeld (conns w' ! i) \<and> isClosed (Conn (conns w' ! i))"
    if "CallClose i \<in> set cs"
    using run_Close_delivers [OF assms(1,2,4) that] .
  have releasing: "\<not> hasHeld (conns w' ! i)"
    if "fireCh (conns w ! i) < length (chans w) \<and> chans w ! fireCh (conns w ! i) \<and>
        (\<exists>p. CallRelease i p \<in> set cs \<and> (p \<or> \<not> closeCh (conns w ! i)))"
    using run_release_delivers [OF assms(1,2,4)] that by blast
  have firing: "\<not> hasHeld (conns w' ! i)"
    if t: "armed w \<and> fireCh (conns w ! i) = fireChAtom (tr w) \<and> CallReset \<notin> set cs \<and>
        (\<exists>pre post p. cs = pre @ CallFire # post \<and> CallRelease i p \<in> set post \<and>
                       (p \<or> \<not> closeCh (conns w ! i)))"
  proof -
    from t obtain pre post p where c: "cs = pre @ CallFire # post"
      and m: "CallRelease i p \<in> set post" and q: "p \<or> \<not> closeCh (conns w ! i)"
      by blast
    from t have a: "armed w" and f: "fireCh (conns w ! i) = fireChAtom (tr w)"
      and nr: "CallReset \<notin> set cs"
      by simp_all
    from run_Fire_release_delivers [OF assms(1) [unfolded c] assms(2) assms(4) [unfolded c]
        assms(3) a f nr [unfolded c] m q]
    show ?thesis .
  qed
  have first: "if hasHeld (conns w' ! i) then conns w' ! i = conns w ! i
      else calls (Conn (conns w' ! i)) = calls (Conn (conns w ! i)) @ [[held (conns w ! i)]] \<and>
           (accepts (Conn (conns w ! i)) 1 \<longrightarrow>
              wire (Conn (conns w' ! i)) = wire (Conn (conns w ! i)) @ [held (conns w ! i)])"
  proof (cases "hasHeld (conns w' ! i)")
    case True
    with once show ?thesis unfolding written_once_def by metis
  next
    case False
    with once show ?thesis unfolding written_once_def by metis
  qed
  show ?thesis
    unfolding Let_def using first closing releasing firing by blast
qed

theorem withheld_byte_written_once_witness:
  "run NewTransport [CallDial dial_ok, CallWrite 0 [1, 2]] = Some held_world \<and>
   run NewTransport [CallDial dial_ok, CallWrite 0 [1, 2], CallFire] = Some fired_world \<and>
   run NewTransport [CallDial dial_ok, CallWrite 0 [7], CallClose 0, CallWrite 0 [8], CallFire]
     = Some reused_world \<and>
   hasHeld (conns held_world ! 0) \<and> held (conns held_world ! 0) = 2 \<and>
   wire (Conn (conns held_world ! 0)) = [1] \<and>
   (case run fired_world [CallRelease 0 False] of
      None \<Rightarrow> False
    | Some w' \<Rightarrow> \<not> hasHeld (conns w' ! 0) \<and> calls (Conn (conns w' ! 0)) = [[1], [2]] \<and>
                 wire (Conn (conns w' ! 0)) = [1, 2] \<and> \<not> isClosed (Conn (conns w' ! 0))) \<and>
   (case run held_world [CallDial dial_ok, CallFire, CallRelease 0 False] of
      None \<Rightarrow> False
    | Some w' \<Rightarrow> \<not> hasHeld (conns w' ! 0) \<and> calls (Conn (conns w' ! 0)) = [[1], [2]] \<and>
                 wire (Conn (conns w' ! 0)) = [1, 2] \<and> \<not> isClosed (Conn (conns w' ! 0))) \<and>
   (case run held_world [CallFire, CallClose 0, CallRelease 0 True] of
      None \<Rightarrow> False
    | Some w' \<Rightarrow> calls (Conn (conns w' ! 0)) = [[1], [2]] \<and>
                 wire (Conn (conns w' ! 0)) = [1, 2] \<and> isClosed (Conn (conns w' ! 0))) \<and>
   (case run held_world [CallClose 0, CallFire, CallRelease 0 True] of
      None \<Rightarrow> False
    | Some w' \<Rightarrow> calls (Conn (conns w' ! 0)) = [[1], [2]] \<and>
                 wire (Conn (conns w' ! 0)) = [1, 2] \<and> isClosed (Conn (conns w' ! 0))) \<and>
   hasHeld (conns reused_world ! 0) \<and> held (conns reused_world ! 0) = 8 \<and>
   closeCh (conns reused_world ! 0) \<and> chans reused_world ! fireCh (conns reused_world ! 0) \<and>
   (case run reused_world [CallRelease 0 False] of
      None \<Rightarrow> False
    | Some w' \<Rightarrow> conns w' ! 0 = conns reused_world ! 0) \<and>
   (case run reused_world [CallRelease 0 True] of
      None \<Rightarrow> False
    | Some w' \<Rightarrow> \<not> hasHeld (conns w' ! 0) \<and> calls (Conn (conns w' ! 0)) = [[7], [8]] \<and>
                 wire (Conn (conns w' ! 0)) = [7])"
proof -
  obtain wA where rA: "run fired_world [CallRelease 0 False] = Some wA"
    by (simp add: fired_world_eval eval_defs)
  obtain wB where rB: "run held_world [CallDial dial_ok, CallFire, CallRelease 0 False] = Some wB"
    by (simp add: held_world_eval eval_defs)
  obtain wC where rC: "run reused_world [CallRelease 0 True] = Some wC"
    by (simp add: reused_world_def eval_defs)
  obtain wD where rD: "run reused_world [CallRelease 0 False] = Some wD"
    by (simp add: reused_world_def eval_defs)
  have lA: "0 < length (conns fired_world)" and hA: "hasHeld (conns fired_world ! 0)"
    and cA: "fireCh (conns fired_world ! 0) < length (chans fired_world)"
      "chans fired_world ! fireCh (conns fired_world ! 0)"
    and pA: "\<exists>p. CallRelease 0 p \<in> set [CallRelease 0 False] \<and>
                 (p \<or> \<not> closeCh (conns fired_world ! 0))"
    by (auto simp: fired_world_eval)
  have lB: "0 < length (conns held_world)" and hB: "hasHeld (conns held_world ! 0)"
    and aB: "armed held_world" "fireCh (conns held_world ! 0) = fireChAtom (tr held_world)"
    and qB: "\<not> closeCh (conns held_world ! 0)"
    by (simp_all add: held_world_eval armed_def)
  have pB: "\<exists>pre post p. [CallDial dial_ok, CallFire, CallRelease 0 False] = pre @ CallFire # post \<and>
              CallRelease 0 p \<in> set post \<and> (p \<or> \<not> closeCh (conns held_world ! 0))"
  proof (intro exI conjI)
    show "[CallDial dial_ok, CallFire, CallRelease 0 False] =
            [CallDial dial_ok] @ CallFire # [CallRelease 0 False]"
      by simp
    show "CallRelease 0 False \<in> set [CallRelease 0 False]" by simp
    show "False \<or> \<not> closeCh (conns held_world ! 0)" using qB by simp
  qed
  have nB: "CallReset \<notin> set [CallDial dial_ok, CallFire, CallRelease 0 False]"
    by simp
  have lC: "0 < length (conns reused_world)" and hC: "hasHeld (conns reused_world ! 0)"
    and cC: "fireCh (conns reused_world ! 0) < length (chans reused_world)"
      "chans reused_world ! fireCh (conns reused_world ! 0)"
    and pC: "\<exists>p. CallRelease 0 p \<in> set [CallRelease 0 True] \<and>
                 (p \<or> \<not> closeCh (conns reused_world ! 0))"
    by (auto simp: reused_world_def)
  have wrA: "\<forall>a\<in>set [CallRelease 0 False]. \<not> writes_to 0 a"
    and wrB: "\<forall>a\<in>set [CallDial dial_ok, CallFire, CallRelease 0 False]. \<not> writes_to 0 a"
    and wrC: "\<forall>a\<in>set [CallRelease 0 True]. \<not> writes_to 0 a"
    by simp_all
  from withheld_byte_written_once [OF rA lA hA wrA, unfolded Let_def] cA pA
  have dA: "\<not> hasHeld (conns wA ! 0)" by blast
  from withheld_byte_written_once [OF rB lB hB wrB, unfolded Let_def] aB nB pB
  have dB: "\<not> hasHeld (conns wB ! 0)" by blast
  from withheld_byte_written_once [OF rC lC hC wrC, unfolded Let_def] cC pC
  have dC: "\<not> hasHeld (conns wC ! 0)" by blast
  from withheld_byte_written_once [OF rD lC hC wrA, unfolded Let_def]
  have dD: "if hasHeld (conns wD ! 0) then conns wD ! 0 = conns reused_world ! 0
            else calls (Conn (conns wD ! 0)) =
                   calls (Conn (conns reused_world ! 0)) @ [[held (conns reused_world ! 0)]]"
    by (cases "hasHeld (conns wD ! 0)") simp_all
  show ?thesis
    using dA dB dC dD
    by (simp add: held_world_eval fired_world_eval reused_world_def eval_defs)
qed

subsection \<open>The held counter along a run\<close>

lemma tryNotify_counters:
  "heldCount (tryNotify t) = heldCount t \<and> aliveCount (tryNotify t) = aliveCount t \<and>
   fired (tryNotify t) = fired t"
  by (simp add: tryNotify_def)

lemma Close_heldCount:
  "heldCount (fst (Close t sc)) =
     (if isCounted sc \<and> fired t = 0 then heldCount t - 1 else heldCount t)"
  by (simp add: Close_unfold tryNotify_counters)

lemma Close_isCounted: "\<not> isCounted (fst (snd (Close t sc)))"
  by (simp add: Close_unfold)

lemma word_pred_neq: "(x :: int32) \<noteq> x - 1"
  by simp

lemma word_succ_neq: "(x :: int32) \<noteq> x + 1"
  by simp

lemma Write_counted:
  "isCounted (fst (snd (Write f f t sc b))) =
     (isCounted sc \<or> heldCount (fst (Write f f t sc b)) = heldCount t + 1)"
proof (cases "b = []")
  case True
  then show ?thesis by (simp add: Write_empty)
next
  case False
  show ?thesis
  proof (cases "f = 1")
    case True
    with False show ?thesis by (simp add: Write_fired_path)
  next
    case f: False
    with False show ?thesis
      by (simp add: Write_buffer_unfold Let_def tryNotify_counters)
  qed
qed

lemma step_length:
  assumes "step w a = Some w'"
  shows "length (conns w') = length (conns w) \<or>
         (\<exists>sc. conns w' = conns w @ [sc] \<and> \<not> isCounted sc)"
proof (cases a)
  case (CallDial outcome)
  with assms DialContext_conns [of w outcome] show ?thesis
    by (auto simp: fresh_wrapper_def)
next
  case (CallWrite j b)
  with assms show ?thesis by (auto simp: Write_at_def split: if_splits prod.splits)
next
  case CallFire
  with assms Fire_conns [of w w'] show ?thesis by simp
next
  case (CallRelease j p)
  with assms show ?thesis by (auto split: if_splits)
next
  case (CallClose j)
  with assms show ?thesis by (auto simp: Close_at_def split: if_splits prod.splits)
next
  case CallReset
  with assms show ?thesis by (auto simp: Reset_def)
qed

lemma waitForFire_isCounted: "isCounted (waitForFire cs p sc) = isCounted sc"
  by (simp add: waitForFire_def Let_def release_def)

lemma step_cnt_other:
  assumes s: "step w a = Some w'" and nw: "\<not> writes_to i a"
  shows "cnt i w' \<le> cnt i w"
proof (cases "i < length (conns w)")
  case True
  from step_wrapper [OF s True nw] show ?thesis
    using True by (auto simp: cnt_def waitForFire_isCounted Close_isCounted)
next
  case False
  from step_length [OF s] False show ?thesis
    by (auto simp: cnt_def nth_append)
qed

lemma step_cnt_Close:
  assumes s: "step w (CallClose i) = Some w'"
  shows "cnt i w' = 0 \<and> dec_at i w (CallClose i) w' \<le> cnt i w"
proof (cases "i < length (conns w)")
  case True
  with s have w': "w' = fst (Close_at w i)" by simp
  have c: "conns w' ! i = fst (snd (Close (tr w) (conns w ! i)))"
    and h: "heldCount (tr w') = heldCount (fst (Close (tr w) (conns w ! i)))"
    and l: "length (conns w') = length (conns w)"
    using True by (simp_all add: w' Close_at_def split: prod.splits)
  show ?thesis
    using True c h l Close_heldCount [of "tr w" "conns w ! i"]
      Close_isCounted [of "tr w" "conns w ! i"] word_pred_neq [of "heldCount (tr w)"]
    by (auto simp: cnt_def dec_at_def)
next
  case False
  with s have "w' = w" by simp
  with False word_pred_neq [of "heldCount (tr w)"] show ?thesis
    by (auto simp: cnt_def dec_at_def)
qed

lemma step_cnt_Write:
  assumes s: "step w (CallWrite i b) = Some w'"
  shows "cnt i w' \<le> inc_at i w (CallWrite i b) w' + cnt i w"
proof (cases "i < length (conns w)")
  case True
  with s have w': "w' = fst (Write_at w i b)" by simp
  have c: "conns w' ! i = fst (snd (Write (fired (tr w)) (fired (tr w)) (tr w) (conns w ! i) b))"
    and h: "heldCount (tr w') =
              heldCount (fst (Write (fired (tr w)) (fired (tr w)) (tr w) (conns w ! i) b))"
    and l: "length (conns w') = length (conns w)"
    using True by (simp_all add: w' Write_at_def split: prod.splits)
  show ?thesis
    using True c h l Write_counted [of "fired (tr w)" "tr w" "conns w ! i" b]
    by (auto simp: cnt_def inc_at_def)
next
  case False
  with s have "w' = w" by simp
  with False show ?thesis by (simp add: cnt_def)
qed

lemma step_balance:
  assumes s: "step w a = Some w'"
  shows "dec_at i w a w' + cnt i w' \<le> inc_at i w a w' + cnt i w"
proof (cases "a = CallClose i")
  case True
  with step_cnt_Close [of w i w'] s show ?thesis by (simp add: inc_at_def)
next
  case nc: False
  show ?thesis
  proof (cases "writes_to i a")
    case True
    then obtain b where "a = CallWrite i b" by (cases a) auto
    with step_cnt_Write [of w i b w'] s nc show ?thesis by (simp add: dec_at_def)
  next
    case False
    with step_cnt_other [OF s False] nc show ?thesis by (simp add: dec_at_def inc_at_def)
  qed
qed

lemma run_balance: "held_decs i w cs \<le> held_incs i w cs + cnt i w"
proof (induction cs arbitrary: w)
  case Nil
  then show ?case by simp
next
  case (Cons a cs)
  show ?case
  proof (cases "step w a")
    case None
    then show ?thesis by simp
  next
    case (Some w1)
    from step_balance [OF Some, of i] Cons.IH [of w1] Some show ?thesis by simp
  qed
qed

lemma held_incs_none: "\<not> list_ex (writes_to i) cs \<Longrightarrow> held_incs i w cs = 0"
proof (induction cs arbitrary: w)
  case Nil
  then show ?case by simp
next
  case (Cons a cs)
  then show ?case by (cases "step w a") (simp_all add: inc_at_def)
qed

lemma held_decs_once: "\<not> closed_then_written i cs \<Longrightarrow> held_decs i w cs \<le> 1"
proof (induction cs arbitrary: w)
  case Nil
  then show ?case by simp
next
  case (Cons a cs)
  show ?case
  proof (cases "step w a")
    case None
    then show ?thesis by simp
  next
    case (Some w1)
    show ?thesis
    proof (cases "a = CallClose i")
      case True
      with Cons.prems have "\<not> list_ex (writes_to i) cs" by simp
      from held_incs_none [OF this, of w1] run_balance [of i w1 cs]
        step_cnt_Close [of w i w1] Some True
      have "held_decs i w1 cs = 0" by simp
      with Some show ?thesis by (simp add: dec_at_def)
    next
      case False
      with Cons.prems have "\<not> closed_then_written i cs" by simp
      from Cons.IH [OF this, of w1] Some False show ?thesis by (simp add: dec_at_def)
    qed
  qed
qed

lemma cnt_NewTransport: "cnt i NewTransport = 0"
  by (simp add: cnt_def NewTransport_def)

text \<open>
  Claim C7, amended. \<open>Close\<close> on a wrapper that is counted while \<open>fired\<close> is 0
  lowers \<open>heldCount\<close> by exactly one and clears \<open>isCounted\<close>; \<open>Close\<close> after
  \<open>Fire\<close> (\<open>fired\<close> not 0) leaves \<open>heldCount\<close> unchanged, and so does \<open>Close\<close> on a
  wrapper that is not counted. Along every run of a new transport the decrements made
  for a wrapper never exceed the increments made for it; and in any run in which no
  \<open>Write\<close> on the wrapper follows a \<open>Close\<close> of it, \<open>heldCount\<close> is decremented
  for that wrapper at most once.
\<close>

theorem Close_decrements_held_once:
  "(isCounted sc \<and> fired t = 0 \<longrightarrow>
      heldCount (fst (Close t sc)) = heldCount t - 1 \<and> \<not> isCounted (fst (snd (Close t sc)))) \<and>
   (fired t \<noteq> 0 \<longrightarrow> heldCount (fst (Close t sc)) = heldCount t) \<and>
   (\<not> isCounted sc \<longrightarrow> heldCount (fst (Close t sc)) = heldCount t) \<and>
   held_decs i NewTransport cs \<le> held_incs i NewTransport cs \<and>
   (\<not> closed_then_written i cs \<longrightarrow> held_decs i w cs \<le> 1)"
  using run_balance [of i NewTransport cs] held_decs_once [of i cs w]
  by (simp add: Close_heldCount Close_isCounted cnt_NewTransport)

theorem Close_decrements_held_once_witness:
  "(let sc = conns held_world ! 0; t = tr held_world;
        cs = [CallDial dial_ok, CallWrite 0 [7], CallClose 0, CallFire, CallClose 0]
    in isCounted sc \<and> fired t = 0 \<and> heldCount t = 1 \<and>
       heldCount (fst (Close t sc)) = 0 \<and> \<not> isCounted (fst (snd (Close t sc))) \<and>
       fired (t\<lparr>fired := 1\<rparr>) \<noteq> 0 \<and> heldCount (fst (Close (t\<lparr>fired := 1\<rparr>) sc)) = 1 \<and>
       \<not> closed_then_written 0 cs \<and>
       held_decs 0 NewTransport cs = 1 \<and> held_incs 0 NewTransport cs = 1)"
proof -
  let ?cs = "[CallDial dial_ok, CallWrite 0 [7], CallClose 0, CallFire, CallClose 0]"
  have d: "held_decs 0 NewTransport ?cs = 1"
    by (simp add: dec_at_def eval_defs)
  have i: "held_incs 0 NewTransport ?cs = 1"
    by (simp add: inc_at_def eval_defs)
  have q: "\<not> closed_then_written 0 ?cs"
    by simp
  from Close_decrements_held_once [of "conns held_world ! 0" "tr held_world" 0 ?cs NewTransport]
    Close_decrements_held_once [of "conns held_world ! 0" "(tr held_world)\<lparr>fired := 1\<rparr>" 0 ?cs
      NewTransport]
  show ?thesis
    using d i q by (simp add: held_world_eval Let_def)
qed

text \<open>
  Claim C7 as stated says that no sequence of operations decrements \<open>heldCount\<close>
  twice for the same wrapper. A buffering \<open>Write\<close> on a wrapper that was already closed
  counts it again, and the next \<open>Close\<close> decrements again: two decrements for
  wrapper 0.
\<close>

theorem Close_decrements_twice_counterexample:
  "held_decs 0 NewTransport
     [CallDial dial_ok, CallWrite 0 [7], CallClose 0, CallWrite 0 [8], CallClose 0] = 2"
  by (simp add: dec_at_def eval_defs)

subsection \<open>Held connections never exceed alive ones\<close>

lemma count_update:
  "i < length xs \<Longrightarrow>
     length (filter P (xs[i := y])) + (if P (xs ! i) then 1 else 0) =
       length (filter P xs) + (if P y then 1 else 0)"
proof (induction xs arbitrary: i)
  case Nil
  then show ?case by simp
next
  case (Cons x xs)
  then show ?case by (cases i) auto
qed

lemma count_le: "list_all (\<lambda>x. \<not> (P x \<and> \<not> Q x)) xs \<Longrightarrow> length (filter P xs) \<le> length (filter Q xs)"
  by (induction xs) auto

lemma list_all_update: "list_all P xs \<Longrightarrow> P y \<Longrightarrow> list_all P (xs[i := y])"
  by (induction xs arbitrary: i) (auto split: nat.splits)

lemma sint_of_nat_small: "n < 2 ^ 31 \<Longrightarrow> sint (of_nat n :: int32) = int n"
  by (simp add: signed_of_nat signed_take_bit_int_eq_self)

lemma sle_of_nat: "n \<le> m \<Longrightarrow> m < 2 ^ 31 \<Longrightarrow> (of_nat n :: int32) \<le>s of_nat m"
  by (simp add: word_sle_eq sint_of_nat_small)

lemma Write_isClosed: "isClosed (Conn (fst (snd (Write f f t sc b)))) = isClosed (Conn sc)"
proof (cases "b = []")
  case True
  then show ?thesis by (simp add: Write_empty)
next
  case False
  show ?thesis
  proof (cases "f = 1")
    case True
    with False show ?thesis by (simp add: Write_fired_path conn_Write_isClosed)
  next
    case f: False
    with False show ?thesis
      by (simp add: Write_buffer_unfold Let_def conn_Write_isClosed)
  qed
qed

lemma Write_heldCount:
  "heldCount (fst (Write f f t sc b)) =
     (if isCounted (fst (snd (Write f f t sc b))) \<and> \<not> isCounted sc
      then heldCount t + 1 else heldCount t)"
proof (cases "b = []")
  case True
  then show ?thesis by (simp add: Write_empty)
next
  case False
  show ?thesis
  proof (cases "f = 1")
    case True
    with False show ?thesis by (simp add: Write_fired_path)
  next
    case f: False
    with False show ?thesis
      by (simp add: Write_buffer_unfold Let_def tryNotify_counters)
  qed
qed

lemma Write_at_unfold:
  "fst (Write_at w i b) =
     w\<lparr>tr := fst (Write (fired (tr w)) (fired (tr w)) (tr w) (conns w ! i) b),
       conns := (conns w)[i := fst (snd (Write (fired (tr w)) (fired (tr w)) (tr w) (conns w ! i) b))]\<rparr>"
  by (simp add: Write_at_def split: prod.splits)

lemma Close_at_unfold:
  "fst (Close_at w i) =
     w\<lparr>tr := fst (Close (tr w) (conns w ! i)),
       conns := (conns w)[i := fst (snd (Close (tr w) (conns w ! i)))]\<rparr>"
  by (simp add: Close_at_def split: prod.splits)

lemma Fire_fired: "Fire w = Some w' \<Longrightarrow> fired (tr w') \<noteq> 0"
  by (auto simp: Fire_def split: if_splits option.splits)

lemma counted_Write_at:
  assumes "i < length (conns w)" and "heldCount (tr w) = of_nat (counted w)"
  shows "heldCount (tr (fst (Write_at w i b))) = of_nat (counted (fst (Write_at w i b)))"
proof -
  let ?W = "Write (fired (tr w)) (fired (tr w)) (tr w) (conns w ! i) b"
  from count_update [OF assms(1), of isCounted "fst (snd ?W)"]
  have c: "counted (fst (Write_at w i b)) + (if isCounted (conns w ! i) then 1 else 0) =
           counted w + (if isCounted (fst (snd ?W)) then 1 else 0)"
    by (simp add: counted_def Write_at_unfold)
  have k: "isCounted (conns w ! i) \<Longrightarrow> isCounted (fst (snd ?W))"
    using Write_counted [of "fired (tr w)" "tr w" "conns w ! i" b] by simp
  show ?thesis
  proof (cases "isCounted (fst (snd ?W)) \<and> \<not> isCounted (conns w ! i)")
    case True
    with c have "counted (fst (Write_at w i b)) = counted w + 1" by simp
    with True assms(2) Write_heldCount [of "fired (tr w)" "tr w" "conns w ! i" b] show ?thesis
      by (simp add: Write_at_unfold)
  next
    case False
    with c k have "counted (fst (Write_at w i b)) = counted w"
      by (cases "isCounted (conns w ! i)") simp_all
    with False assms(2) Write_heldCount [of "fired (tr w)" "tr w" "conns w ! i" b] show ?thesis
      by (simp add: Write_at_unfold)
  qed
qed

lemma counted_Close_at:
  assumes "i < length (conns w)" and "heldCount (tr w) = of_nat (counted w)"
    and "fired (tr w) = 0"
  shows "heldCount (tr (fst (Close_at w i))) = of_nat (counted (fst (Close_at w i)))"
proof -
  from count_update [OF assms(1), of isCounted "fst (snd (Close (tr w) (conns w ! i)))"]
  have c: "counted (fst (Close_at w i)) + (if isCounted (conns w ! i) then 1 else 0) = counted w"
    by (simp add: counted_def Close_at_unfold Close_isCounted)
  show ?thesis
  proof (cases "isCounted (conns w ! i)")
    case True
    with c have "counted w = counted (fst (Close_at w i)) + 1" by simp
    with True assms show ?thesis
      by (simp add: Close_at_unfold Close_heldCount)
  next
    case False
    with c assms show ?thesis
      by (simp add: Close_at_unfold Close_heldCount)
  qed
qed

lemma counted_Release:
  assumes "i < length (conns w)"
  shows "counted (w\<lparr>conns := (conns w)[i := waitForFire (chans w) p (conns w ! i)]\<rparr>) = counted w"
  using count_update [OF assms, of isCounted "waitForFire (chans w) p (conns w ! i)"]
  by (simp add: counted_def waitForFire_isCounted)

lemma counted_Dial:
  "counted (fst (DialContext w outcome)) = counted w"
  using DialContext_conns [of w outcome]
  by (auto simp: counted_def fresh_wrapper_def)

lemma step_held_tally:
  assumes s: "step w a = Some w'" and nr: "a \<noteq> CallReset" and inv: "held_tally w"
  shows "held_tally w'"
proof (cases "fired (tr w') = 0")
  case False
  then show ?thesis by (simp add: held_tally_def)
next
  case True
  have nf: "a \<noteq> CallFire"
    using s True Fire_fired [of w w'] by auto
  from step_frame [OF s nf nr] True have f0: "fired (tr w) = 0" by simp
  with inv have h: "heldCount (tr w) = of_nat (counted w)" by (simp add: held_tally_def)
  have "heldCount (tr w') = of_nat (counted w')"
  proof (cases a)
    case (CallDial outcome)
    with s h DialContext_frame [of w outcome] counted_Dial [of w outcome] show ?thesis
      by auto
  next
    case (CallWrite i b)
    with s h counted_Write_at [of i w b] show ?thesis
      by (auto split: if_splits)
  next
    case CallFire
    with nf show ?thesis by simp
  next
    case (CallRelease i p)
    with s h counted_Release [of i w p] show ?thesis
      by (auto split: if_splits)
  next
    case (CallClose i)
    with s h f0 counted_Close_at [of i w] show ?thesis
      by (auto split: if_splits)
  next
    case CallReset
    with nr show ?thesis by simp
  qed
  then show ?thesis by (simp add: held_tally_def)
qed

lemma run_held_tally:
  assumes "run w cs = Some w'" and "CallReset \<notin> set cs" and "held_tally w"
  shows "held_tally w'"
  using assms
proof (induction cs arbitrary: w)
  case Nil
  then show ?case by simp
next
  case (Cons a cs)
  from Cons.prems obtain w1 where s: "step w a = Some w1" and r: "run w1 cs = Some w'"
    by (auto split: option.splits)
  from Cons.prems have "a \<noteq> CallReset" and n: "CallReset \<notin> set cs" by auto
  from step_held_tally [OF s this(1) Cons.prems(3)] Cons.IH [OF r n] show ?case by simp
qed

lemma DialContext_alive:
  "conns (fst (DialContext w outcome)) = conns w \<and>
     aliveCount (tr (fst (DialContext w outcome))) = aliveCount (tr w) \<or>
   (\<exists>c. outcome = Inr c \<and>
        conns (fst (DialContext w outcome)) =
          conns w @ [fresh_wrapper\<lparr>Conn := c, fireCh := fireChAtom (tr w)\<rparr>] \<and>
        aliveCount (tr (fst (DialContext w outcome))) = aliveCount (tr w) + 1)"
  by (cases outcome)
     (simp_all add: DialContext_def trackDial_def trackDial_begin_def trackDial_end_def
        wrapConn_def tryNotify_def fresh_wrapper_def Let_def)

lemma Fire_alive: "Fire w = Some w' \<Longrightarrow> aliveCount (tr w') = aliveCount (tr w)"
  by (auto simp: Fire_def split: if_splits option.splits)

lemma Close_aliveCount: "aliveCount (fst (Close t sc)) = aliveCount t - 1"
  by (simp add: Close_unfold tryNotify_counters)

lemma Close_isClosed: "isClosed (Conn (fst (snd (Close t sc))))"
  by (simp add: Close_unfold)

lemma waitForFire_isClosed: "isClosed (Conn (waitForFire cs p sc)) = isClosed (Conn sc)"
  by (simp add: waitForFire_def Let_def release_def conn_Write_isClosed)

lemma alive_tally_Dial:
  assumes "orderly_call w (CallDial outcome)" and "alive_tally w"
  shows "alive_tally (fst (DialContext w outcome))"
  using DialContext_alive [of w outcome] assms
  by (auto simp: alive_tally_def open_conns_def fresh_wrapper_def)

lemma alive_tally_Write:
  assumes "i < length (conns w)" and "\<not> isClosed (Conn (conns w ! i))" and "alive_tally w"
  shows "alive_tally (fst (Write_at w i b))"
proof -
  let ?W = "Write (fired (tr w)) (fired (tr w)) (tr w) (conns w ! i) b"
  have o: "\<not> isClosed (Conn (fst (snd ?W)))"
    using assms(2) by (simp add: Write_isClosed)
  from count_update [OF assms(1), of "\<lambda>sc. \<not> isClosed (Conn sc)" "fst (snd ?W)"] o assms(2)
  have "open_conns (fst (Write_at w i b)) = open_conns w"
    by (simp add: open_conns_def Write_at_unfold)
  moreover have "aliveCount (tr (fst (Write_at w i b))) = aliveCount (tr w)"
    using Write_frame [of "fired (tr w)" "fired (tr w)" "tr w" "conns w ! i" b]
    by (simp add: Write_at_unfold)
  moreover have "list_all (\<lambda>sc. \<not> (isCounted sc \<and> isClosed (Conn sc)))
                   (conns (fst (Write_at w i b)))"
    using assms(3) o by (simp add: alive_tally_def Write_at_unfold list_all_update)
  ultimately show ?thesis
    using assms(3) by (simp add: alive_tally_def)
qed

lemma alive_tally_Release:
  assumes "i < length (conns w)" and "alive_tally w"
  shows "alive_tally (w\<lparr>conns := (conns w)[i := waitForFire (chans w) p (conns w ! i)]\<rparr>)"
proof -
  let ?y = "waitForFire (chans w) p (conns w ! i)"
  from count_update [OF assms(1), of "\<lambda>sc. \<not> isClosed (Conn sc)" ?y]
  have "open_conns (w\<lparr>conns := (conns w)[i := ?y]\<rparr>) = open_conns w"
    by (simp add: open_conns_def waitForFire_isClosed)
  moreover have "\<not> (isCounted (conns w ! i) \<and> isClosed (Conn (conns w ! i)))"
    using assms by (simp add: alive_tally_def list_all_length)
  then have "\<not> (isCounted ?y \<and> isClosed (Conn ?y))"
    by (simp add: waitForFire_isClosed waitForFire_isCounted)
  ultimately show ?thesis
    using assms(2) by (simp add: alive_tally_def list_all_update)
qed

lemma alive_tally_Close:
  assumes "i < length (conns w)" and "\<not> isClosed (Conn (conns w ! i))" and "alive_tally w"
  shows "alive_tally (fst (Close_at w i))"
proof -
  let ?y = "fst (snd (Close (tr w) (conns w ! i)))"
  from count_update [OF assms(1), of "\<lambda>sc. \<not> isClosed (Conn sc)" ?y] assms(2)
  have "open_conns w = open_conns (fst (Close_at w i)) + 1"
    by (simp add: open_conns_def Close_at_unfold Close_isClosed)
  moreover have "list_all (\<lambda>sc. \<not> (isCounted sc \<and> isClosed (Conn sc)))
                   (conns (fst (Close_at w i)))"
    using assms(3) by (simp add: alive_tally_def Close_at_unfold list_all_update Close_isCounted)
  ultimately show ?thesis
    using assms(3) by (simp add: alive_tally_def Close_at_unfold Close_aliveCount)
qed

lemma step_alive_tally:
  assumes o: "orderly_call w a" and s: "step w a = Some w'" and inv: "alive_tally w"
  shows "alive_tally w'"
proof (cases a)
  case (CallDial outcome)
  with alive_tally_Dial [of w outcome] o s inv show ?thesis by auto
next
  case (CallWrite i b)
  with alive_tally_Write [of i w b] o s inv show ?thesis by auto
next
  case CallFire
  with s inv Fire_alive [of w w'] Fire_conns [of w w'] show ?thesis
    by (simp add: alive_tally_def open_conns_def)
next
  case (CallRelease i p)
  with alive_tally_Release [of i w p] s inv show ?thesis by (auto split: if_splits)
next
  case (CallClose i)
  with alive_tally_Close [of i w] o s inv show ?thesis by auto
next
  case CallReset
  with o show ?thesis by simp
qed

lemma run_alive_tally:
  assumes "orderly w cs" and "run w cs = Some w'" and "alive_tally w"
  shows "alive_tally w'"
  using assms
proof (induction cs arbitrary: w)
  case Nil
  then show ?case by simp
next
  case (Cons a cs)
  from Cons.prems obtain w1 where s: "step w a = Some w1" and r: "run w1 cs = Some w'"
    by (auto split: option.splits)
  from Cons.prems s have oc: "orderly_call w a" and os: "orderly w1 cs" by simp_all
  from step_alive_tally [OF oc s Cons.prems(3)] Cons.IH [OF os r] show ?case by simp
qed

lemma NewTransport_tallies: "held_tally NewTransport \<and> alive_tally NewTransport"
  by (simp add: held_tally_def alive_tally_def counted_def open_conns_def NewTransport_def)

lemma counted_le_open: "alive_tally w \<Longrightarrow> counted w \<le> open_conns w"
  unfolding alive_tally_def counted_def open_conns_def
  using count_le [of isCounted "\<lambda>sc. \<not> isClosed (Conn sc)" "conns w"] by simp

lemma open_le_length: "open_conns w \<le> length (conns w)"
  by (simp add: open_conns_def)

text \<open>
  Claim C6, amended. In every state with \<open>fired = 0\<close> that a run of \<open>Dial\<close>,
  \<open>Write\<close>, \<open>Fire\<close>, \<open>release\<close> and \<open>Close\<close> calls reaches from a new transport,
  \<open>heldCount\<close> is the number of wrappers with \<open>isCounted\<close> set: each wrapper
  contributes 0 or 1. If moreover the run is orderly (dials return open connections,
  no wrapper is written to or closed after its \<open>Close\<close>) and fewer than \<open>2^31\<close>
  wrappers exist, \<open>aliveCount\<close> is the number of open wrappers, every counted wrapper
  is open, and \<open>heldCount \<le> aliveCount\<close> as signed 32-bit integers.
\<close>

theorem held_le_alive:
  assumes "run NewTransport cs = Some w" and "fired (tr w) = 0" and "CallReset \<notin> set cs"
  shows "heldCount (tr w) = of_nat (counted w) \<and>
         (orderly NewTransport cs \<and> length (conns w) < 2 ^ 31 \<longrightarrow>
            aliveCount (tr w) = of_nat (open_conns w) \<and> counted w \<le> open_conns w \<and>
            heldCount (tr w) \<le>s aliveCount (tr w))"
proof -
  from run_held_tally [OF assms(1,3)] NewTransport_tallies assms(2)
  have h: "heldCount (tr w) = of_nat (counted w)"
    by (simp add: held_tally_def)
  have "aliveCount (tr w) = of_nat (open_conns w) \<and> counted w \<le> open_conns w \<and>
        heldCount (tr w) \<le>s aliveCount (tr w)"
    if o: "orderly NewTransport cs" and l: "length (conns w) < 2 ^ 31"
  proof -
    from run_alive_tally [OF o assms(1)] NewTransport_tallies have a: "alive_tally w"
      by simp
    then have e: "aliveCount (tr w) = of_nat (open_conns w)"
      by (simp add: alive_tally_def)
    from counted_le_open [OF a] have c: "counted w \<le> open_conns w" .
    from open_le_length [of w] l have "open_conns w < 2 ^ 31" by simp
    from sle_of_nat [OF c this] h e c show ?thesis by simp
  qed
  with h show ?thesis by blast
qed

theorem held_le_alive_witness:
  "(let cs = [CallDial dial_ok, CallDial dial_ok, CallWrite 0 [1, 2], CallWrite 0 [3],
              CallWrite 1 [4], CallClose 0]
    in CallReset \<notin> set cs \<and> orderly NewTransport cs \<and>
       (case run NewTransport cs of
          None \<Rightarrow> False
        | Some w \<Rightarrow> fired (tr w) = 0 \<and> length (conns w) = 2 \<and> counted w = 1 \<and>
                    open_conns w = 1 \<and> heldCount (tr w) = 1 \<and> aliveCount (tr w) = 1 \<and>
                    heldCount (tr w) \<le>s aliveCount (tr w)))"
proof -
  let ?cs = "[CallDial dial_ok, CallDial dial_ok, CallWrite 0 [1, 2], CallWrite 0 [3],
              CallWrite 1 [4], CallClose 0]"
  obtain w where r: "run NewTransport ?cs = Some w"
    by (simp add: eval_defs)
  have f: "fired (tr w) = 0" and l: "length (conns w) = 2" and c: "counted w = 1"
    and p: "open_conns w = 1"
    using r by (auto simp: eval_defs counted_def open_conns_def)
  have n: "CallReset \<notin> set ?cs" by simp
  have o: "orderly NewTransport ?cs"
    by (simp add: eval_defs)
  have l2: "length (conns w) < 2 ^ 31"
    using l by simp
  from held_le_alive [OF r f n] o l2
  have t: "heldCount (tr w) = of_nat (counted w) \<and>
           aliveCount (tr w) = of_nat (open_conns w) \<and>
           heldCount (tr w) \<le>s aliveCount (tr w)"
    by blast
  then have h: "heldCount (tr w) = 1" and a: "aliveCount (tr w) = 1"
    and s: "heldCount (tr w) \<le>s aliveCount (tr w)"
    using c p by simp_all
  have body: "fired (tr w) = 0 \<and> length (conns w) = 2 \<and> counted w = 1 \<and>
              open_conns w = 1 \<and> heldCount (tr w) = 1 \<and> aliveCount (tr w) = 1 \<and>
              heldCount (tr w) \<le>s aliveCount (tr w)"
    using f l c p h a s by blast
  show ?thesis
    unfolding Let_def r option.case using n o body by blast
qed

text \<open>
  Claim C6 as stated covers every sequence of calls. A \<open>Write\<close> of one byte on a
  wrapper that has been closed counts it: \<open>heldCount = 1\<close>, \<open>aliveCount = 0\<close>,
  \<open>fired = 0\<close>.
\<close>

theorem held_exceeds_alive_counterexample:
  "(case run NewTransport [CallDial dial_ok, CallClose 0, CallWrite 0 [7]] of
      None \<Rightarrow> False
    | Some w \<Rightarrow> fired (tr w) = 0 \<and> heldCount (tr w) = 1 \<and> aliveCount (tr w) = 0 \<and>
                \<not> heldCount (tr w) \<le>s aliveCount (tr w))"
  by (simp add: eval_defs word_sle_eq)

subsection \<open>What Wait and a Write after Fire do\<close>

text \<open>
  \<open>Wait\<close> returns \<open>nil\<close> at once when \<open>want \<le> 0\<close> or when \<open>check\<close> holds.
  \<open>check\<close> holds exactly when \<open>dialStartCount\<close> is not below \<open>int32(want)\<close>,
  \<open>dialInflight\<close> is not positive, and \<open>aliveCount\<close> is 0 or equals \<open>heldCount\<close>;
  \<open>want\<close> is compared with nothing but \<open>dialStartCount\<close>.
\<close>

theorem Wait_quorum:
  "(want \<le> 0 \<longrightarrow> Wait t es want = Some None) \<and>
   (check t want \<longleftrightarrow>
      \<not> dialStartCount t <s word_of_int want \<and> \<not> 0 <s dialInflight t \<and>
      (aliveCount t = 0 \<or> heldCount t = aliveCount t)) \<and>
   (check t want \<longrightarrow> Wait t es want = Some None)"
  by (auto simp: Wait_def check_def Let_def)

theorem Wait_quorum_witness:
  "Wait (tr held_world) [] 0 = Some None \<and>
   check (tr held_world) 1 \<and> Wait (tr held_world) [] 1 = Some None \<and>
   \<not> check (tr held_world) 2 \<and> Wait (tr held_world) [] 2 = None"
  using Wait_quorum [of 0 "tr held_world" "[]"] Wait_quorum [of 1 "tr held_world" "[]"]
  by (simp add: held_world_eval Wait_def check_def word_sless_alt)

text \<open>
  A non-empty \<open>Write\<close> whose first load of \<open>fired\<close> reads 1 hands \<open>b\<close> to the
  underlying connection and touches nothing else, a withheld byte included. When only
  the second load reads 1, it is \<open>release\<close> (flush the withheld byte, if any)
  followed by that same forwarding.
\<close>

theorem Write_after_Fire:
  assumes "b \<noteq> []"
  shows "(f1 = 1 \<longrightarrow>
            Write f1 f2 t sc b =
              (t, sc\<lparr>Conn := fst (conn_Write (Conn sc) b)\<rparr>, snd (conn_Write (Conn sc) b))) \<and>
         (f1 \<noteq> 1 \<and> f2 = 1 \<longrightarrow>
            Write f1 f2 t sc b =
              (t, (release sc)\<lparr>Conn := fst (conn_Write (Conn (release sc)) b)\<rparr>,
               snd (conn_Write (Conn (release sc)) b)))"
  using assms by (simp add: Write_def release_def Let_def split: prod.splits)

theorem Write_after_Fire_witness:
  "(let sc = conns held_world ! 0; t = (tr held_world)\<lparr>fired := 1\<rparr>
    in [3, 4, 5] \<noteq> ([] :: byte list) \<and>
       wire (Conn (fst (snd (Write 1 1 t sc [3, 4, 5])))) = [1, 3, 4, 5] \<and>
       hasHeld (fst (snd (Write 1 1 t sc [3, 4, 5]))) \<and>
       wire (Conn (fst (snd (Write 0 1 t sc [3, 4, 5])))) = [1, 2, 3, 4, 5] \<and>
       \<not> hasHeld (fst (snd (Write 0 1 t sc [3, 4, 5]))))"
  using Write_after_Fire [of "[3, 4, 5]" 1 1 "(tr held_world)\<lparr>fired := 1\<rparr>" "conns held_world ! 0"]
    Write_after_Fire [of "[3, 4, 5]" 0 1 "(tr held_world)\<lparr>fired := 1\<rparr>" "conns held_world ! 0"]
  by (simp add: held_world_eval release_def conn_Write_def Let_def)

end
